theory Spec2Isabelle
  imports
    Main
    "HOL-Library.AList"
    "HOL-Library.Char_ord"
    "HOL-Library.List_Lexorder"
    "HOL-Library.Product_Lexorder"
    "HOL-Library.Multiset"
begin

section \<open>Values, exceptions and library functions\<close>

text \<open>
  The pipeline of \<^verbatim>\<open>thirsty_lang\<close> is \<^verbatim>\<open>parse_yaml\<close> (parser.py), then
  \<^verbatim>\<open>validate_and_normalize\<close> (validator.py), then \<^verbatim>\<open>ir_to_monolith_tasks\<close> and
  \<^verbatim>\<open>ir_to_waterfall_spec\<close> (compiler.py). Each function is embedded as a HOL function
  returning \<open>exc + 'a\<close>; \<open>Inl\<close> carries the exception the Python code raises.

  A Python \<^verbatim>\<open>str\<close> is a \<open>string\<close> whose characters are read as code points below 256;
  \<^verbatim>\<open>sorted\<close> on names is \<open>sort\<close> in the lexicographic order of code points, the order
  Python uses for \<^verbatim>\<open>str\<close>. A \<^verbatim>\<open>dict\<close> is an association list in insertion order
  with distinct keys, updated with \<open>AList.update\<close> (an existing key keeps its place, a
  new key goes to the end), as Python dictionaries do.
\<close>

text \<open>
  A Python \<^verbatim>\<open>float\<close> by its value: not-a-number, an infinity with its sign
  (\<open>True\<close> for the positive one), or the finite number \<open>m * 2 ^ e\<close>.
\<close>

datatype pyfloat = FNan | FInf bool | FFinite int int

text \<open>
  The values \<^verbatim>\<open>yaml.safe_load\<close> builds from the core YAML tags: null, bool, int, float,
  str, seq and map.
\<close>

datatype pyval =
    PNone
  | PBool bool
  | PInt int
  | PFloat pyfloat
  | PStr string
  | PList "pyval list"
  | PDict "(pyval \<times> pyval) list"

type_synonym pydict = "(pyval \<times> pyval) list"

text \<open>
  \<^verbatim>\<open>ParseError\<close> and \<^verbatim>\<open>ValidationError\<close> (errors.py) carry a message built from a
  fixed template and the values interpolated into it. Each raise site of the source is one
  constructor below, holding the interpolated values.
\<close>

datatype parse_error =
    YamlSyntax                  \<comment> \<open>\<^verbatim>\<open>YAML parse error: ...\<close>\<close>
  | RootNotMapping              \<comment> \<open>\<^verbatim>\<open>top-level document must be a mapping\<close>\<close>
  | MissingField string         \<comment> \<open>\<^verbatim>\<open>missing required field: 'tasks'\<close>\<close>
  | FieldNotList string         \<comment> \<open>\<^verbatim>\<open>'tasks' must be a list\<close>\<close>
  | TaskNotMapping              \<comment> \<open>\<^verbatim>\<open>each task entry must be a mapping\<close>\<close>
  | EdgesNotList                \<comment> \<open>\<^verbatim>\<open>edges must be a list\<close>\<close>
  | EdgeNotMapping              \<comment> \<open>\<^verbatim>\<open>each edge entry must be a mapping\<close>\<close>

datatype validation_error =
    FlowIdRequired              \<comment> \<open>\<^verbatim>\<open>flow id is required and must be non-empty\<close>\<close>
  | TenantRequired              \<comment> \<open>\<^verbatim>\<open>tenant is required and must be non-empty\<close>\<close>
  | NoTasks                     \<comment> \<open>\<^verbatim>\<open>at least one task is required\<close>\<close>
  | TaskNameRequired            \<comment> \<open>\<^verbatim>\<open>task name is required and must be non-empty\<close>\<close>
  | DuplicateTaskName string    \<comment> \<open>\<^verbatim>\<open>duplicate task name: {t.name!r}\<close>\<close>
  | AgentRequired string        \<comment> \<open>\<^verbatim>\<open>task {t.name!r}: agent is required\<close>\<close>
  | NotAnInteger string string pyval
                                \<comment> \<open>\<^verbatim>\<open>task {task_name!r}: {key} must be an integer, got {val!r}\<close>\<close>
  | TimeoutNotPositive string   \<comment> \<open>\<^verbatim>\<open>task {t.name!r}: timeout_ms must be > 0\<close>\<close>
  | UnknownEdgeSource string    \<comment> \<open>\<^verbatim>\<open>edge source {e.source!r} does not match any task name\<close>\<close>
  | UnknownEdgeTarget string    \<comment> \<open>\<^verbatim>\<open>edge target {e.target!r} does not match any task name\<close>\<close>
  | InvalidRiskLevel string     \<comment> \<open>\<^verbatim>\<open>invalid risk_level {...!r}; must be one of [...]\<close>\<close>
  | CycleDetected string        \<comment> \<open>\<^verbatim>\<open>cycle detected in task dependency graph at {node!r}\<close>\<close>

datatype exc =
    ParseError parse_error
  | ValidationError validation_error
  | YAMLError
  | KeyError string
  | TypeError
  | ValueError
  | OverflowError
  | AttributeError
  | RecursionError

section \<open>The intermediate representation (ir.py)\<close>

record IRTask =
  name :: string
  agent :: string
  input :: pydict
  priority :: int
  timeout_ms :: int
  labels :: pydict

record IREdge =
  source :: string
  target :: string
  condition :: pyval

record IRPolicy =
  risk_level :: string
  requires_approval :: bool
  retention :: pyval

text \<open>The field \<^verbatim>\<open>id\<close> is \<open>flow_id\<close> here; \<^verbatim>\<open>tasks\<close> is the dictionary keyed by task name.\<close>

record IRFlow =
  flow_id :: string
  tenant :: string
  tasks :: "(string \<times> IRTask) list"
  edges :: "IREdge list"
  policy :: IRPolicy

section \<open>The document model (grammar.py)\<close>

text \<open>
  The fields of \<^verbatim>\<open>TaskNode\<close>, \<^verbatim>\<open>Edge\<close>, \<^verbatim>\<open>Policy\<close> and \<^verbatim>\<open>FlowDocument\<close> carry a
  prefix, since the records of ir.py use the same field names.
\<close>

record TaskNode =
  t_name :: string
  t_agent :: string
  t_input :: pydict
  t_resources :: pydict
  t_labels :: pydict

record Edge =
  e_source :: string
  e_target :: string
  e_condition :: pyval

record Policy =
  p_risk_level :: string
  p_requires_approval :: bool
  p_retention :: pyval
  p_extra :: pydict

record FlowDocument =
  version :: int
  doc_id :: string
  doc_tenant :: string
  doc_tasks :: "TaskNode list"
  doc_edges :: "Edge list"
  doc_policy :: Policy

section \<open>Functions of the Python runtime\<close>

text \<open>
  The source calls functions of Python and of PyYAML whose results on some arguments are
  not fixed by the repository. They are parameters of the embedding:
  \<^item> \<open>safe_load\<close> is \<^verbatim>\<open>yaml.safe_load\<close>: the loaded value, or the exception the
    loader raises. That is \<^verbatim>\<open>yaml.YAMLError\<close> on malformed YAML; the loader can also
    raise other exceptions (\<^verbatim>\<open>ValueError\<close> on an impossible date, \<^verbatim>\<open>RecursionError\<close>
    on deep nesting);
  \<^item> \<open>str_of\<close> is \<^verbatim>\<open>str(x)\<close> for a value that is not a \<^verbatim>\<open>str\<close>;
  \<^item> \<open>int_of_str\<close> is \<^verbatim>\<open>int(s)\<close> for a \<^verbatim>\<open>str\<close>; \<open>None\<close> stands for \<^verbatim>\<open>ValueError\<close>;
  \<^item> \<open>dict_of_list\<close> is \<^verbatim>\<open>dict(x)\<close> for a non-empty list: the dictionary, or the
    failure for \<^verbatim>\<open>TypeError\<close> (an element is not iterable, a key is not hashable) or
    \<^verbatim>\<open>ValueError\<close> (an element has not two items);
  \<^item> \<open>set_order\<close> gives the order in which a \<^verbatim>\<open>set\<close> of strings is iterated, from the
    list of its elements in insertion order. Python fixes no such order (it depends on
    the hash seed of the process), so theorems hold for every \<open>set_order\<close> that
    enumerates the elements of the set;
  \<^item> \<open>max_depth\<close> is the number of nested calls of the function \<^verbatim>\<open>dfs\<close> that the
    interpreter allows: its recursion limit (1000 unless the calling program sets
    another) less the frames in use when \<^verbatim>\<open>_assert_dag\<close> first calls \<^verbatim>\<open>dfs\<close>. A call
    beyond it raises \<^verbatim>\<open>RecursionError\<close>.
\<close>

datatype dict_failure = DictTypeError | DictValueError

record pylib =
  safe_load :: "string \<Rightarrow> exc + pyval"
  str_of :: "pyval \<Rightarrow> string"
  int_of_str :: "string \<Rightarrow> int option"
  dict_of_list :: "pyval list \<Rightarrow> dict_failure + pydict"
  set_order :: "string list \<Rightarrow> string list"
  max_depth :: nat

definition set_order_ok :: "'a pylib_scheme \<Rightarrow> bool" where
  "set_order_ok lib \<longleftrightarrow> (\<forall>xs. set (set_order lib xs) = set xs)"

text \<open>
  \<^verbatim>\<open>int(x)\<close>: \<^verbatim>\<open>TypeError\<close> on \<^verbatim>\<open>None\<close>, lists and dictionaries; a \<^verbatim>\<open>bool\<close> is
  \<open>0\<close> or \<open>1\<close>; a finite float is truncated towards zero; not-a-number raises
  \<^verbatim>\<open>ValueError\<close> and an infinity raises \<^verbatim>\<open>OverflowError\<close>.
\<close>

definition trunc_float :: "int \<Rightarrow> int \<Rightarrow> int" where
  "trunc_float m e =
     (if 0 \<le> e then m * 2 ^ nat e else sgn m * (\<bar>m\<bar> div 2 ^ nat (- e)))"

fun py_int :: "'a pylib_scheme \<Rightarrow> pyval \<Rightarrow> exc + int" where
  "py_int lib PNone = Inl TypeError"
| "py_int lib (PBool b) = Inr (if b then 1 else 0)"
| "py_int lib (PInt i) = Inr i"
| "py_int lib (PFloat FNan) = Inl ValueError"
| "py_int lib (PFloat (FInf _)) = Inl OverflowError"
| "py_int lib (PFloat (FFinite m e)) = Inr (trunc_float m e)"
| "py_int lib (PStr s) = (case int_of_str lib s of None \<Rightarrow> Inl ValueError | Some i \<Rightarrow> Inr i)"
| "py_int lib (PList _) = Inl TypeError"
| "py_int lib (PDict _) = Inl TypeError"

section \<open>The parser (parser.py)\<close>

text \<open>The truth value of a Python value, as \<^verbatim>\<open>x or y\<close> and \<^verbatim>\<open>bool(x)\<close> take it.\<close>

fun truthy :: "pyval \<Rightarrow> bool" where
  "truthy PNone \<longleftrightarrow> False"
| "truthy (PBool b) \<longleftrightarrow> b"
| "truthy (PInt i) \<longleftrightarrow> i \<noteq> 0"
| "truthy (PFloat FNan) \<longleftrightarrow> True"
| "truthy (PFloat (FInf _)) \<longleftrightarrow> True"
| "truthy (PFloat (FFinite m e)) \<longleftrightarrow> m \<noteq> 0"
| "truthy (PStr s) \<longleftrightarrow> s \<noteq> []"
| "truthy (PList xs) \<longleftrightarrow> xs \<noteq> []"
| "truthy (PDict d) \<longleftrightarrow> d \<noteq> []"

text \<open>\<^verbatim>\<open>isinstance(x, dict)\<close> and \<^verbatim>\<open>isinstance(x, list)\<close>.\<close>

fun is_dict :: "pyval \<Rightarrow> bool" where
  "is_dict (PDict d) \<longleftrightarrow> True"
| "is_dict _ \<longleftrightarrow> False"

fun is_list :: "pyval \<Rightarrow> bool" where
  "is_list (PList xs) \<longleftrightarrow> True"
| "is_list _ \<longleftrightarrow> False"

text \<open>\<^verbatim>\<open>d.get(key, dflt)\<close> for a string key, and \<^verbatim>\<open>x or y\<close>.\<close>

definition dict_get :: "pydict \<Rightarrow> string \<Rightarrow> pyval \<Rightarrow> pyval" where
  "dict_get d key dflt = (case map_of d (PStr key) of None \<Rightarrow> dflt | Some v \<Rightarrow> v)"

definition py_or :: "pyval \<Rightarrow> pyval \<Rightarrow> pyval" where
  "py_or x y = (if truthy x then x else y)"

text \<open>\<^verbatim>\<open>str(x)\<close>: a string is returned as it is.\<close>

definition py_str :: "'a pylib_scheme \<Rightarrow> pyval \<Rightarrow> string" where
  "py_str lib v = (case v of PStr s \<Rightarrow> s | _ \<Rightarrow> str_of lib v)"

text \<open>
  \<^verbatim>\<open>dict(x)\<close>: a copy of a dictionary; \<^verbatim>\<open>TypeError\<close> on a value that is not iterable;
  \<^verbatim>\<open>ValueError\<close> on a non-empty string, whose elements are strings of length one.
\<close>

fun py_dict :: "'a pylib_scheme \<Rightarrow> pyval \<Rightarrow> exc + pydict" where
  "py_dict lib (PDict d) = Inr d"
| "py_dict lib (PList xs) =
     (if xs = [] then Inr []
      else case dict_of_list lib xs of
             Inl DictTypeError \<Rightarrow> Inl TypeError
           | Inl DictValueError \<Rightarrow> Inl ValueError
           | Inr d \<Rightarrow> Inr d)"
| "py_dict lib (PStr s) = (if s = [] then Inr [] else Inl ValueError)"
| "py_dict lib _ = Inl TypeError"

text \<open>
  The expression \<^verbatim>\<open>TaskNode(name=str(t.get("name", "")), ..., labels=dict(... or {}))\<close>;
  the arguments are evaluated from left to right.
\<close>

definition task_node :: "'a pylib_scheme \<Rightarrow> pydict \<Rightarrow> exc + TaskNode" where
  "task_node lib t =
     (case py_dict lib (py_or (dict_get t ''input'' (PDict [])) (PDict [])) of
        Inl e \<Rightarrow> Inl e
      | Inr inp \<Rightarrow>
          (case py_dict lib (py_or (dict_get t ''resources'' (PDict [])) (PDict [])) of
             Inl e \<Rightarrow> Inl e
           | Inr res \<Rightarrow>
               (case py_dict lib (py_or (dict_get t ''labels'' (PDict [])) (PDict [])) of
                  Inl e \<Rightarrow> Inl e
                | Inr lbl \<Rightarrow>
                    Inr \<lparr>t_name = py_str lib (dict_get t ''name'' (PStr [])),
                         t_agent = py_str lib (dict_get t ''agent'' (PStr [])),
                         t_input = inp, t_resources = res, t_labels = lbl\<rparr>)))"

text \<open>The loop \<^verbatim>\<open>for t in raw_tasks\<close>.\<close>

fun parse_tasks :: "'a pylib_scheme \<Rightarrow> pyval list \<Rightarrow> TaskNode list \<Rightarrow> exc + TaskNode list" where
  "parse_tasks lib [] acc = Inr acc"
| "parse_tasks lib (t # rest) acc =
     (case t of
        PDict d \<Rightarrow>
          (case task_node lib d of
             Inl e \<Rightarrow> Inl e
           | Inr node \<Rightarrow> parse_tasks lib rest (acc @ [node]))
      | _ \<Rightarrow> Inl (ParseError TaskNotMapping))"

text \<open>The loop \<^verbatim>\<open>for e in raw_edges\<close>.\<close>

fun parse_edges :: "'a pylib_scheme \<Rightarrow> pyval list \<Rightarrow> Edge list \<Rightarrow> exc + Edge list" where
  "parse_edges lib [] acc = Inr acc"
| "parse_edges lib (e # rest) acc =
     (case e of
        PDict d \<Rightarrow>
          parse_edges lib rest
            (acc @ [\<lparr>e_source = py_str lib (dict_get d ''from'' (PStr [])),
                     e_target = py_str lib (dict_get d ''to'' (PStr [])),
                     e_condition = dict_get d ''condition'' PNone\<rparr>])
      | _ \<Rightarrow> Inl (ParseError EdgeNotMapping))"

text \<open>\<^verbatim>\<open>_require_list\<close>.\<close>

definition require_list :: "pydict \<Rightarrow> string \<Rightarrow> exc + pyval list" where
  "require_list raw key =
     (case dict_get raw key PNone of
        PNone \<Rightarrow> Inl (ParseError (MissingField key))
      | PList xs \<Rightarrow> Inr xs
      | _ \<Rightarrow> Inl (ParseError (FieldNotList key)))"

text \<open>
  The policy: \<^verbatim>\<open>raw_policy = raw.get("policy") or {}\<close> is read with \<^verbatim>\<open>.get\<close>, which
  only a dictionary has; on any other value the attribute lookup raises
  \<^verbatim>\<open>AttributeError\<close>.
\<close>

definition parse_policy :: "'a pylib_scheme \<Rightarrow> pydict \<Rightarrow> exc + Policy" where
  "parse_policy lib raw =
     (case py_or (dict_get raw ''policy'' PNone) (PDict []) of
        PDict p \<Rightarrow>
          Inr \<lparr>p_risk_level = py_str lib (dict_get p ''risk_level'' (PStr ''low'')),
               p_requires_approval = truthy (dict_get p ''requires_approval'' (PBool False)),
               p_retention = dict_get p ''retention'' PNone,
               p_extra =
                 filter (\<lambda>kv. fst kv \<notin> {PStr ''risk_level'', PStr ''requires_approval'',
                                          PStr ''retention''}) p\<rparr>
      | _ \<Rightarrow> Inl AttributeError)"

definition parse_yaml :: "'a pylib_scheme \<Rightarrow> string \<Rightarrow> exc + FlowDocument" where
  "parse_yaml lib src =
     (case safe_load lib src of
        Inl YAMLError \<Rightarrow> Inl (ParseError YamlSyntax)
      | Inl e \<Rightarrow> Inl e
      | Inr (PDict raw) \<Rightarrow>
          (case py_int lib (dict_get raw ''version'' (PInt 1)) of
             Inl e \<Rightarrow> Inl e
           | Inr ver \<Rightarrow>
               (case require_list raw ''tasks'' of
                  Inl e \<Rightarrow> Inl e
                | Inr raw_tasks \<Rightarrow>
                    (case parse_tasks lib raw_tasks [] of
                       Inl e \<Rightarrow> Inl e
                     | Inr ts \<Rightarrow>
                         (case py_or (dict_get raw ''edges'' PNone) (PList []) of
                            PList raw_edges \<Rightarrow>
                              (case parse_edges lib raw_edges [] of
                                 Inl e \<Rightarrow> Inl e
                               | Inr es \<Rightarrow>
                                   (case parse_policy lib raw of
                                      Inl e \<Rightarrow> Inl e
                                    | Inr pol \<Rightarrow>
                                        Inr \<lparr>version = ver,
                                             doc_id = py_str lib (dict_get raw ''id'' (PStr [])),
                                             doc_tenant = py_str lib (dict_get raw ''tenant'' (PStr [])),
                                             doc_tasks = ts, doc_edges = es, doc_policy = pol\<rparr>))
                          | _ \<Rightarrow> Inl (ParseError EdgesNotList)))))
      | Inr _ \<Rightarrow> Inl (ParseError RootNotMapping))"

section \<open>The validator (validator.py)\<close>

definition DEFAULT_PRIORITY :: int where
  "DEFAULT_PRIORITY = 0"

definition DEFAULT_TIMEOUT_MS :: int where
  "DEFAULT_TIMEOUT_MS = 10000"

definition VALID_RISK_LEVELS :: "string set" where
  "VALID_RISK_LEVELS = {''low'', ''medium'', ''high'', ''critical''}"

text \<open>
  \<^verbatim>\<open>str.strip()\<close> removes leading and trailing whitespace; below code point 256 the
  whitespace characters of Python are the ones of \<open>is_space\<close>.
\<close>

definition is_space :: "char \<Rightarrow> bool" where
  "is_space c \<longleftrightarrow>
     c \<in> {CHR 0x09, CHR 0x0A, CHR 0x0B, CHR 0x0C, CHR 0x0D, CHR 0x1C, CHR 0x1D, CHR 0x1E,
          CHR 0x1F, CHR 0x20, CHR 0x85, CHR 0xA0}"

definition strip :: "string \<Rightarrow> string" where
  "strip s = rev (dropWhile is_space (rev (dropWhile is_space s)))"

text \<open>\<^verbatim>\<open>resources.get(key, default)\<close>, the value \<^verbatim>\<open>_int_field\<close> coerces.\<close>

definition resource_value :: "pydict \<Rightarrow> string \<Rightarrow> int \<Rightarrow> pyval" where
  "resource_value resources key dflt =
     (case map_of resources (PStr key) of None \<Rightarrow> PInt dflt | Some v \<Rightarrow> v)"

text \<open>
  \<^verbatim>\<open>_int_field\<close>: the handler catches \<^verbatim>\<open>TypeError\<close> and \<^verbatim>\<open>ValueError\<close> only; any other
  exception of \<^verbatim>\<open>int(val)\<close> leaves the function as it is.
\<close>

definition int_field :: "'a pylib_scheme \<Rightarrow> pydict \<Rightarrow> string \<Rightarrow> int \<Rightarrow> string \<Rightarrow> exc + int" where
  "int_field lib resources key dflt task_name =
     (let val = resource_value resources key dflt
      in case py_int lib val of
           Inr i \<Rightarrow> Inr i
         | Inl TypeError \<Rightarrow> Inl (ValidationError (NotAnInteger task_name key val))
         | Inl ValueError \<Rightarrow> Inl (ValidationError (NotAnInteger task_name key val))
         | Inl e \<Rightarrow> Inl e)"

text \<open>
  The loop \<^verbatim>\<open>for t in doc.tasks\<close>, with the set \<^verbatim>\<open>seen_names\<close> and the dictionary
  \<^verbatim>\<open>ir_tasks\<close> as state.
\<close>

fun validate_tasks ::
  "'a pylib_scheme \<Rightarrow> TaskNode list \<Rightarrow> string set \<Rightarrow> (string \<times> IRTask) list \<Rightarrow>
   exc + (string \<times> IRTask) list" where
  "validate_tasks lib [] seen_names ir_tasks = Inr ir_tasks"
| "validate_tasks lib (t # rest) seen_names ir_tasks =
     (if strip (t_name t) = [] then Inl (ValidationError TaskNameRequired)
      else if t_name t \<in> seen_names then Inl (ValidationError (DuplicateTaskName (t_name t)))
      else if strip (t_agent t) = [] then Inl (ValidationError (AgentRequired (t_name t)))
      else
        (case int_field lib (t_resources t) ''priority'' DEFAULT_PRIORITY (t_name t) of
           Inl e \<Rightarrow> Inl e
         | Inr prio \<Rightarrow>
             (case int_field lib (t_resources t) ''timeout_ms'' DEFAULT_TIMEOUT_MS (t_name t) of
                Inl e \<Rightarrow> Inl e
              | Inr tmo \<Rightarrow>
                  if tmo \<le> 0 then Inl (ValidationError (TimeoutNotPositive (t_name t)))
                  else
                    validate_tasks lib rest (insert (t_name t) seen_names)
                      (AList.update (t_name t)
                         \<lparr>name = t_name t, agent = t_agent t, input = t_input t,
                          priority = prio, timeout_ms = tmo, labels = t_labels t\<rparr>
                         ir_tasks))))"

text \<open>The loop \<^verbatim>\<open>for e in doc.edges\<close>, appending to \<^verbatim>\<open>ir_edges\<close>.\<close>

fun validate_edges ::
  "(string \<times> IRTask) list \<Rightarrow> Edge list \<Rightarrow> IREdge list \<Rightarrow> exc + IREdge list" where
  "validate_edges ir_tasks [] ir_edges = Inr ir_edges"
| "validate_edges ir_tasks (e # rest) ir_edges =
     (if map_of ir_tasks (e_source e) = None
        then Inl (ValidationError (UnknownEdgeSource (e_source e)))
      else if map_of ir_tasks (e_target e) = None
        then Inl (ValidationError (UnknownEdgeTarget (e_target e)))
      else validate_edges ir_tasks rest
             (ir_edges @ [\<lparr>source = e_source e, target = e_target e, condition = e_condition e\<rparr>]))"

text \<open>
  \<^verbatim>\<open>_assert_dag\<close> first builds \<^verbatim>\<open>graph\<close>, a dictionary from every task name to a set of
  names. A set is kept as the list of its elements in insertion order.
  \<^verbatim>\<open>graph[e.source].add(e.target)\<close> raises \<^verbatim>\<open>KeyError\<close> when the source is no key.
\<close>

fun dag_graph ::
  "IREdge list \<Rightarrow> (string \<times> string list) list \<Rightarrow> exc + (string \<times> string list) list" where
  "dag_graph [] graph = Inr graph"
| "dag_graph (e # es) graph =
     (case map_of graph (source e) of
        None \<Rightarrow> Inl (KeyError (source e))
      | Some ts \<Rightarrow>
          dag_graph es
            (AList.update (source e) (if target e \<in> set ts then ts else ts @ [target e]) graph))"

text \<open>
  The nested function \<^verbatim>\<open>dfs\<close> and the loop \<^verbatim>\<open>for nxt in graph[node]: dfs(nxt)\<close>.
  The source keeps \<^verbatim>\<open>visiting\<close> and \<^verbatim>\<open>visited\<close> in two sets shared by all calls. The
  node is added to \<^verbatim>\<open>visiting\<close> before the loop and discarded after it, and it was not
  in the set before (the call would have raised), so a call that returns leaves
  \<^verbatim>\<open>visiting\<close> as it found it: the set is passed down and not returned. \<^verbatim>\<open>visited\<close>
  only grows and is returned. An exception ends the whole traversal.

  Every call of \<^verbatim>\<open>dfs\<close> takes a frame of the interpreter's stack. \<open>depth\<close> is the number
  of frames left: a call with none left raises \<^verbatim>\<open>RecursionError\<close>, and the calls made
  from the body have one frame less.
\<close>

function dfs ::
    "'a pylib_scheme \<Rightarrow> (string \<times> string list) list \<Rightarrow> string set \<Rightarrow> string set \<Rightarrow> nat \<Rightarrow>
     string \<Rightarrow> exc + string set"
  and dfs_all ::
    "'a pylib_scheme \<Rightarrow> (string \<times> string list) list \<Rightarrow> string set \<Rightarrow> string set \<Rightarrow> nat \<Rightarrow>
     string list \<Rightarrow> exc + string set" where
  "dfs lib graph visiting visited depth node =
     (if depth = 0 then Inl RecursionError
      else if node \<in> visiting then Inl (ValidationError (CycleDetected node))
      else if node \<in> visited then Inr visited
      else
        (case map_of graph node of
           None \<Rightarrow> Inl (KeyError node)
         | Some ts \<Rightarrow>
             (case dfs_all lib graph (insert node visiting) visited (depth - 1)
                     (set_order lib ts) of
                Inl e \<Rightarrow> Inl e
              | Inr visited' \<Rightarrow> Inr (insert node visited'))))"
| "dfs_all lib graph visiting visited depth [] = Inr visited"
| "dfs_all lib graph visiting visited depth (nxt # rest) =
     (case dfs lib graph visiting visited depth nxt of
        Inl e \<Rightarrow> Inl e
      | Inr visited' \<Rightarrow> dfs_all lib graph visiting visited' depth rest)"
  by pat_completeness auto
termination
  by (relation "measures
    [\<lambda>x. case x of
       Inl (lib, graph, visiting, visited, depth, node) \<Rightarrow> depth
     | Inr (lib, graph, visiting, visited, depth, nodes) \<Rightarrow> depth,
     \<lambda>x. case x of
       Inl (lib, graph, visiting, visited, depth, node) \<Rightarrow> 0
     | Inr (lib, graph, visiting, visited, depth, nodes) \<Rightarrow> Suc (length nodes)]")
    simp_all

text \<open>
  \<^verbatim>\<open>_assert_dag\<close>: build the graph, then \<^verbatim>\<open>for name in tasks: dfs(name)\<close>, each of
  these calls with the \<open>max_depth\<close> frames of the runtime.
\<close>

definition assert_dag :: "'a pylib_scheme \<Rightarrow> (string \<times> IRTask) list \<Rightarrow> IREdge list \<Rightarrow> exc + unit" where
  "assert_dag lib ir_tasks ir_edges =
     (case dag_graph ir_edges (map (\<lambda>n. (n, [])) (map fst ir_tasks)) of
        Inl e \<Rightarrow> Inl e
      | Inr graph \<Rightarrow>
          (case dfs_all lib graph {} {} (max_depth lib) (map fst ir_tasks) of
             Inl e \<Rightarrow> Inl e
           | Inr visited \<Rightarrow> Inr ()))"

definition validate_and_normalize :: "'a pylib_scheme \<Rightarrow> FlowDocument \<Rightarrow> exc + IRFlow" where
  "validate_and_normalize lib doc =
     (if strip (doc_id doc) = [] then Inl (ValidationError FlowIdRequired)
      else if strip (doc_tenant doc) = [] then Inl (ValidationError TenantRequired)
      else if doc_tasks doc = [] then Inl (ValidationError NoTasks)
      else
        (case validate_tasks lib (doc_tasks doc) {} [] of
           Inl e \<Rightarrow> Inl e
         | Inr ir_tasks \<Rightarrow>
             (case validate_edges ir_tasks (doc_edges doc) [] of
                Inl e \<Rightarrow> Inl e
              | Inr ir_edges \<Rightarrow>
                  if p_risk_level (doc_policy doc) \<notin> VALID_RISK_LEVELS
                    then Inl (ValidationError (InvalidRiskLevel (p_risk_level (doc_policy doc))))
                  else
                    (case assert_dag lib ir_tasks ir_edges of
                       Inl e \<Rightarrow> Inl e
                     | Inr _ \<Rightarrow>
                         Inr \<lparr>flow_id = doc_id doc, tenant = doc_tenant doc,
                              tasks = ir_tasks, edges = ir_edges,
                              policy =
                                \<lparr>risk_level = p_risk_level (doc_policy doc),
                                 requires_approval = p_requires_approval (doc_policy doc),
                                 retention = p_retention (doc_policy doc)\<rparr>\<rparr>))))"

section \<open>The topological orderer (compiler.py)\<close>

text \<open>
  \<^verbatim>\<open>adj\<close> is a \<^verbatim>\<open>defaultdict(list)\<close>: reading a missing key gives the empty list.
\<close>

definition adj_get :: "(string \<times> string list) list \<Rightarrow> string \<Rightarrow> string list" where
  "adj_get adj k = (case map_of adj k of None \<Rightarrow> [] | Some ts \<Rightarrow> ts)"

text \<open>
  The loop \<^verbatim>\<open>for e in flow.edges: adj[e.source].append(e.target); in_degree[e.target] += 1\<close>.
  The increment reads \<^verbatim>\<open>in_degree[e.target]\<close> and raises \<^verbatim>\<open>KeyError\<close> on a target that
  is no task.
\<close>

fun build_graph ::
  "IREdge list \<Rightarrow> (string \<times> string list) list \<Rightarrow> (string \<times> int) list \<Rightarrow>
   exc + ((string \<times> string list) list \<times> (string \<times> int) list)" where
  "build_graph [] adj in_degree = Inr (adj, in_degree)"
| "build_graph (e # es) adj in_degree =
     (let adj' = AList.update (source e) (adj_get adj (source e) @ [target e]) adj
      in case map_of in_degree (target e) of
           None \<Rightarrow> Inl (KeyError (target e))
         | Some d \<Rightarrow> build_graph es adj' (AList.update (target e) (d + 1) in_degree))"

text \<open>
  The inner loop \<^verbatim>\<open>for nxt in sorted(adj[node])\<close>, run on the sorted list: decrement the
  in-degree of \<^verbatim>\<open>nxt\<close> and append it to the queue when the in-degree is zero.
\<close>

fun relax ::
  "string list \<Rightarrow> (string \<times> int) list \<Rightarrow> string list \<Rightarrow>
   exc + ((string \<times> int) list \<times> string list)" where
  "relax [] in_degree queue = Inr (in_degree, queue)"
| "relax (nxt # rest) in_degree queue =
     (case map_of in_degree nxt of
        None \<Rightarrow> Inl (KeyError nxt)
      | Some d \<Rightarrow>
          relax rest (AList.update nxt (d - 1) in_degree)
            (if d - 1 = 0 then queue @ [nxt] else queue))"

text \<open>Number of entries of the in-degree table that are still positive.\<close>

definition pending :: "(string \<times> int) list \<Rightarrow> nat" where
  "pending in_degree = length (filter (\<lambda>p. 0 < snd p) in_degree)"

lemma pending_update_le:
  "map_of ind k = Some d \<Longrightarrow> pending (AList.update k (d - 1) ind) \<le> pending ind"
  by (induction ind) (auto simp: pending_def)

lemma pending_update_less:
  "map_of ind k = Some 1 \<Longrightarrow> Suc (pending (AList.update k 0 ind)) \<le> pending ind"
  by (induction ind) (auto simp: pending_def)

lemma relax_measure:
  "relax xs ind q = Inr (ind', q') \<Longrightarrow> length q' + pending ind' \<le> length q + pending ind"
proof (induction xs arbitrary: ind q)
  case Nil
  then show ?case by simp
next
  case (Cons x xs)
  from Cons.prems obtain d where d: "map_of ind x = Some d"
    by (auto split: option.splits)
  show ?case
  proof (cases "d - 1 = 0")
    case True
    then have d1: "d = 1" by simp
    from Cons.prems d True
    have "relax xs (AList.update x 0 ind) (q @ [x]) = Inr (ind', q')" by simp
    from Cons.IH [OF this] pending_update_less [of ind x] d d1
    show ?thesis by simp
  next
    case False
    from Cons.prems d False
    have "relax xs (AList.update x (d - 1) ind) q = Inr (ind', q')" by simp
    from Cons.IH [OF this] pending_update_le [OF d]
    show ?thesis by simp
  qed
qed

text \<open>
  The loop \<^verbatim>\<open>while queue: node = queue.popleft(); order.append(node); ...\<close>. Reading
  \<^verbatim>\<open>adj[node]\<close> may add an empty entry to the \<^verbatim>\<open>defaultdict\<close>, which no later read
  can tell from a missing one, so \<open>adj\<close> is not threaded through the loop.
\<close>

function kahn_loop ::
  "(string \<times> string list) list \<Rightarrow> (string \<times> int) list \<Rightarrow> string list \<Rightarrow> string list \<Rightarrow>
   exc + string list" where
  "kahn_loop adj in_degree [] order = Inr order"
| "kahn_loop adj in_degree (node # queue) order =
     (case relax (sort (adj_get adj node)) in_degree queue of
        Inl e \<Rightarrow> Inl e
      | Inr (in_degree', queue') \<Rightarrow> kahn_loop adj in_degree' queue' (order @ [node]))"
  by pat_completeness auto
termination
proof (relation "measure (\<lambda>(adj, ind, q, ord). length q + pending ind)")
  show "wf (measure (\<lambda>(adj, ind, q, ord). length q + pending ind))" by simp
next
  fix adj :: "(string \<times> string list) list" and in_degree node queue and order :: "string list"
    and x2 x y
  assume "relax (sort (adj_get adj node)) in_degree queue = Inr x2" "(x, y) = x2"
  then have "relax (sort (adj_get adj node)) in_degree queue = Inr (x, y)" by simp
  from relax_measure [OF this]
  show "((adj, x, y, order @ [node]), (adj, in_degree, node # queue, order))
          \<in> measure (\<lambda>(adj, ind, q, ord). length q + pending ind)"
    by simp
qed

text \<open>
  \<^verbatim>\<open>_topological_order\<close>: the in-degree table starts at zero for every task, in the order
  of \<^verbatim>\<open>flow.tasks\<close>; the queue starts with the names of in-degree zero taken from
  \<^verbatim>\<open>sorted(in_degree.items())\<close>, the pairs sorted lexicographically.
\<close>

definition topological_order :: "IRFlow \<Rightarrow> exc + string list" where
  "topological_order flow =
     (case build_graph (edges flow) [] (map (\<lambda>n. (n, 0)) (map fst (tasks flow))) of
        Inl e \<Rightarrow> Inl e
      | Inr (adj, in_degree) \<Rightarrow>
          kahn_loop adj in_degree (map fst (filter (\<lambda>p. snd p = 0) (sort in_degree))) [])"

section \<open>The two projections (compiler.py)\<close>

text \<open>
  Both projections return Python dictionaries with string keys; they are built here as
  \<open>pyval\<close> dictionaries, key by key in the order of the source's dictionary displays.
  \<^verbatim>\<open>{"flow_id": ..., "task_name": ..., "agent": ..., **t.labels}\<close> inserts the three
  derived labels and then every item of \<^verbatim>\<open>t.labels\<close> from left to right.
\<close>

definition monolith_labels :: "IRFlow \<Rightarrow> IRTask \<Rightarrow> pydict" where
  "monolith_labels flow t =
     fold (\<lambda>(k, v). AList.update k v) (labels t)
       [(PStr ''flow_id'', PStr (flow_id flow)),
        (PStr ''task_name'', PStr (name t)),
        (PStr ''agent'', PStr (agent t))]"

definition monolith_payload :: "IRFlow \<Rightarrow> IRTask \<Rightarrow> pyval" where
  "monolith_payload flow t =
     PDict
      [(PStr ''meta'', PDict
          [(PStr ''owner'', PStr (tenant flow)),
           (PStr ''priority'', PInt (priority t)),
           (PStr ''labels'', PDict (monolith_labels flow t)),
           (PStr ''resource_hints'', PDict [(PStr ''timeout_ms'', PInt (timeout_ms t))])]),
       (PStr ''agent'', PStr (agent t)),
       (PStr ''input'', PDict (input t)),
       (PStr ''flow_id'', PStr (flow_id flow))]"

text \<open>
  The loop \<^verbatim>\<open>for name in order: t = flow.tasks[name]; tasks.append({...})\<close>; the subscript
  raises \<^verbatim>\<open>KeyError\<close> on a name that is no key.
\<close>

fun monolith_loop :: "IRFlow \<Rightarrow> string list \<Rightarrow> pyval list \<Rightarrow> exc + pyval list" where
  "monolith_loop flow [] acc = Inr acc"
| "monolith_loop flow (n # rest) acc =
     (case map_of (tasks flow) n of
        None \<Rightarrow> Inl (KeyError n)
      | Some t \<Rightarrow> monolith_loop flow rest (acc @ [monolith_payload flow t]))"

definition ir_to_monolith_tasks :: "IRFlow \<Rightarrow> exc + pyval list" where
  "ir_to_monolith_tasks flow =
     (case topological_order flow of
        Inl e \<Rightarrow> Inl e
      | Inr order \<Rightarrow> monolith_loop flow order [])"

definition waterfall_task :: "IRTask \<Rightarrow> pyval" where
  "waterfall_task t =
     PDict
      [(PStr ''name'', PStr (name t)),
       (PStr ''agent'', PStr (agent t)),
       (PStr ''priority'', PInt (priority t)),
       (PStr ''timeout_ms'', PInt (timeout_ms t)),
       (PStr ''labels'', PDict (labels t))]"

text \<open>The comprehension \<^verbatim>\<open>[{...} for name in order for t in [flow.tasks[name]]]\<close>.\<close>

fun waterfall_tasks :: "IRFlow \<Rightarrow> string list \<Rightarrow> exc + pyval list" where
  "waterfall_tasks flow [] = Inr []"
| "waterfall_tasks flow (n # rest) =
     (case map_of (tasks flow) n of
        None \<Rightarrow> Inl (KeyError n)
      | Some t \<Rightarrow>
          (case waterfall_tasks flow rest of
             Inl e \<Rightarrow> Inl e
           | Inr ts \<Rightarrow> Inr (waterfall_task t # ts)))"

definition waterfall_edge :: "IREdge \<Rightarrow> pyval" where
  "waterfall_edge e =
     PDict [(PStr ''from'', PStr (source e)), (PStr ''to'', PStr (target e)),
            (PStr ''condition'', condition e)]"

definition ir_to_waterfall_spec :: "IRFlow \<Rightarrow> exc + pyval" where
  "ir_to_waterfall_spec flow =
     (case topological_order flow of
        Inl e \<Rightarrow> Inl e
      | Inr order \<Rightarrow>
          (case waterfall_tasks flow order of
             Inl e \<Rightarrow> Inl e
           | Inr ts \<Rightarrow>
               Inr (PDict
                 [(PStr ''id'', PStr (flow_id flow)),
                  (PStr ''tenant'', PStr (tenant flow)),
                  (PStr ''policy'', PDict
                     [(PStr ''risk_level'', PStr (risk_level (policy flow))),
                      (PStr ''requires_approval'', PBool (requires_approval (policy flow))),
                      (PStr ''retention'', retention (policy flow))]),
                  (PStr ''tasks'', PList ts),
                  (PStr ''edges'', PList (map waterfall_edge (edges flow)))])))"

text \<open>Reading the artifacts: \<^verbatim>\<open>d[k]\<close> for a string key, and a path of such subscripts.\<close>

fun py_getitem :: "pyval \<Rightarrow> string \<Rightarrow> pyval option" where
  "py_getitem (PDict d) k = map_of d (PStr k)"
| "py_getitem _ k = None"

fun py_path :: "pyval \<Rightarrow> string list \<Rightarrow> pyval option" where
  "py_path v [] = Some v"
| "py_path v (k # ks) = (case py_getitem v k of None \<Rightarrow> None | Some w \<Rightarrow> py_path w ks)"

text \<open>
  The task names of artifact A, read as the repository's tests read them
  (\<^verbatim>\<open>t["meta"]["labels"]["task_name"]\<close>), and the task names of artifact B
  (\<^verbatim>\<open>t["name"] for t in spec["tasks"]\<close>).
\<close>

definition payload_names :: "pyval list \<Rightarrow> pyval option list" where
  "payload_names ps = map (\<lambda>p. py_path p [''meta'', ''labels'', ''task_name'']) ps"

definition spec_names :: "pyval \<Rightarrow> pyval option list" where
  "spec_names w =
     (case py_getitem w ''tasks'' of
        Some (PList ts) \<Rightarrow> map (\<lambda>t. py_getitem t ''name'') ts
      | _ \<Rightarrow> [])"

section \<open>Validity of an intermediate representation\<close>

text \<open>The dependency graph of a flow: one pair for every edge.\<close>

definition edge_rel :: "IRFlow \<Rightarrow> (string \<times> string) set" where
  "edge_rel flow = (\<lambda>e. (source e, target e)) ` set (edges flow)"

text \<open>What the orderer needs of a flow: a dictionary of tasks, edges between tasks, no cycle.\<close>

definition graph_ok :: "IRFlow \<Rightarrow> bool" where
  "graph_ok flow \<longleftrightarrow>
     distinct (map fst (tasks flow)) \<and>
     (\<forall>e\<in>set (edges flow).
        source e \<in> fst ` set (tasks flow) \<and> target e \<in> fst ` set (tasks flow)) \<and>
     acyclic (edge_rel flow)"

text \<open>
  The invariant summary of the specification: identifier and tenant non-empty after
  trimming, at least one task, task names distinct and non-empty, agents non-empty,
  positive timeouts, edges between tasks, no cycle, a recognised risk level.
\<close>

definition valid_IRFlow :: "IRFlow \<Rightarrow> bool" where
  "valid_IRFlow flow \<longleftrightarrow>
     strip (flow_id flow) \<noteq> [] \<and> strip (tenant flow) \<noteq> [] \<and> tasks flow \<noteq> [] \<and>
     (\<forall>p\<in>set (tasks flow).
        name (snd p) = fst p \<and> strip (name (snd p)) \<noteq> [] \<and> strip (agent (snd p)) \<noteq> [] \<and>
        0 < timeout_ms (snd p)) \<and>
     risk_level (policy flow) \<in> VALID_RISK_LEVELS \<and>
     graph_ok flow"

section \<open>Positions, readiness and the invariant of the orderer\<close>

text \<open>The position of the first occurrence of \<open>x\<close>, or the length when there is none.\<close>

fun index_of :: "'a list \<Rightarrow> 'a \<Rightarrow> nat" where
  "index_of [] x = 0"
| "index_of (y # ys) x = (if x = y then 0 else Suc (index_of ys x))"

text \<open>The targets of the edges leaving \<open>u\<close>, in declaration order: what \<^verbatim>\<open>adj[u]\<close> holds.\<close>

definition out_edges :: "IREdge list \<Rightarrow> string \<Rightarrow> string list" where
  "out_edges es u = map target (filter (\<lambda>e. source e = u) es)"

text \<open>The number of edges into \<open>v\<close> whose source is not emitted yet.\<close>

definition unmet :: "IREdge list \<Rightarrow> string list \<Rightarrow> string \<Rightarrow> nat" where
  "unmet es ord v = length (filter (\<lambda>e. target e = v \<and> source e \<notin> set ord) es)"

text \<open>
  A task is ready when it is not emitted and every edge into it comes from an emitted task.
\<close>

definition ready :: "IREdge list \<Rightarrow> string list \<Rightarrow> string \<Rightarrow> bool" where
  "ready es emitted v \<longleftrightarrow>
     v \<notin> set emitted \<and> list_all (\<lambda>e. target e = v \<longrightarrow> source e \<in> set emitted) es"

text \<open>
  The rule of the specification: the task emitted at each step is the smallest name among
  all tasks ready at that step.
\<close>

definition smallest_ready_first :: "IRFlow \<Rightarrow> string list \<Rightarrow> bool" where
  "smallest_ready_first flow ord \<longleftrightarrow>
     (\<forall>i<length ord. \<forall>v\<in>fst ` set (tasks flow).
        ready (edges flow) (take i ord) v \<longrightarrow> ord ! i \<le> v)"

text \<open>
  The number of emitted tasks after which \<open>v\<close> has all its predecessors emitted: one more
  than the largest position of a predecessor in \<open>ord\<close>, and \<open>0\<close> without predecessors.
\<close>

definition ready_at :: "IREdge list \<Rightarrow> string list \<Rightarrow> string \<Rightarrow> nat" where
  "ready_at es ord v =
     foldr max (map (\<lambda>e. Suc (index_of ord (source e))) (filter (\<lambda>e. target e = v) es)) 0"

text \<open>First in, first out; among the tasks that become ready together, the smaller name first.\<close>

definition key_less :: "IREdge list \<Rightarrow> string list \<Rightarrow> string \<Rightarrow> string \<Rightarrow> bool" where
  "key_less es ord a b \<longleftrightarrow>
     ready_at es ord a < ready_at es ord b \<or> (ready_at es ord a = ready_at es ord b \<and> a < b)"

definition kahn_inv ::
  "IREdge list \<Rightarrow> string list \<Rightarrow> (string \<times> int) list \<Rightarrow> string list \<Rightarrow> string list \<Rightarrow> bool" where
  "kahn_inv es V ind q ord \<longleftrightarrow>
     distinct (ord @ q) \<and> set (ord @ q) \<subseteq> set V \<and> fst ` set ind = set V \<and>
     (\<forall>v\<in>set V. map_of ind v = Some (int (unmet es ord v))) \<and>
     (\<forall>v\<in>set V. v \<in> set q \<longleftrightarrow> v \<notin> set ord \<and> unmet es ord v = 0) \<and>
     (\<forall>e\<in>set es. target e \<in> set ord \<longrightarrow> index_of ord (source e) < index_of ord (target e)) \<and>
     sorted_wrt (key_less es ord) (ord @ q)"

text \<open>Two representations of one IRFlow value: equal fields, the same task dictionary.\<close>

definition same_flow :: "IRFlow \<Rightarrow> IRFlow \<Rightarrow> bool" where
  "same_flow f g \<longleftrightarrow>
     flow_id f = flow_id g \<and> tenant f = tenant g \<and> edges f = edges g \<and> policy f = policy g \<and>
     distinct (map fst (tasks f)) \<and> distinct (map fst (tasks g)) \<and>
     map_of (tasks f) = map_of (tasks g)"

text \<open>The task names of the two artifacts of a flow, or the exception of the projection.\<close>

definition artifact_A_names :: "IRFlow \<Rightarrow> exc + pyval option list" where
  "artifact_A_names flow = map_sum id payload_names (ir_to_monolith_tasks flow)"

definition artifact_B_names :: "IRFlow \<Rightarrow> exc + pyval option list" where
  "artifact_B_names flow = map_sum id spec_names (ir_to_waterfall_spec flow)"

section \<open>Specification of the validator\<close>

text \<open>The edges held by the dictionary \<^verbatim>\<open>graph\<close> of \<^verbatim>\<open>_assert_dag\<close>.\<close>

definition graph_rel :: "(string \<times> string list) list \<Rightarrow> (string \<times> string) set" where
  "graph_rel g = {(u, v). \<exists>ts. map_of g u = Some ts \<and> v \<in> set ts}"

text \<open>
  The invariant of the traversal: \<^verbatim>\<open>visited\<close> is closed under the edges, shares no node
  with \<^verbatim>\<open>visiting\<close>, and no node of it lies on a cycle.
\<close>

definition dfs_inv :: "(string \<times> string list) list \<Rightarrow> string set \<Rightarrow> string set \<Rightarrow> bool" where
  "dfs_inv g visiting visited \<longleftrightarrow>
     graph_rel g `` visited \<subseteq> visited \<and> visited \<inter> visiting = {} \<and>
     (\<forall>x\<in>visited. (x, x) \<notin> (graph_rel g)\<^sup>+)"

text \<open>Every successor held by the graph is a key of the graph.\<close>

definition keys_closed :: "(string \<times> string list) list \<Rightarrow> bool" where
  "keys_closed g \<longleftrightarrow> (\<forall>u ts. map_of g u = Some ts \<longrightarrow> set ts \<subseteq> dom (map_of g))"

text \<open>The dependency graph of a list of IR edges and of the edges of a document.\<close>

definition ir_edge_rel :: "IREdge list \<Rightarrow> (string \<times> string) set" where
  "ir_edge_rel es = (\<lambda>e. (source e, target e)) ` set es"

text \<open>
  The rules of the validator. A rule on a task or an edge carries the position of the task
  or edge in the document.
\<close>

datatype rule =
    R_flow_id | R_tenant | R_no_tasks
  | R_task_name nat | R_duplicate_name nat | R_agent nat
  | R_priority_int nat | R_timeout_int nat | R_timeout_positive nat
  | R_edge_source nat | R_edge_target nat
  | R_risk_level | R_cycle

definition doc_edge_rel :: "FlowDocument \<Rightarrow> (string \<times> string) set" where
  "doc_edge_rel doc = (\<lambda>e. (e_source e, e_target e)) ` set (doc_edges doc)"

text \<open>
  \<^verbatim>\<open>int(val)\<close> raises one of the two exceptions \<^verbatim>\<open>_int_field\<close> turns into a
  \<^verbatim>\<open>ValidationError\<close>.
\<close>

definition coercion_fails :: "'a pylib_scheme \<Rightarrow> pyval \<Rightarrow> bool" where
  "coercion_fails lib v \<longleftrightarrow> py_int lib v = Inl TypeError \<or> py_int lib v = Inl ValueError"

text \<open>The values \<^verbatim>\<open>_int_field\<close> reads for the two integer fields of a task.\<close>

definition priority_value :: "TaskNode \<Rightarrow> pyval" where
  "priority_value t = resource_value (t_resources t) ''priority'' DEFAULT_PRIORITY"

definition timeout_value :: "TaskNode \<Rightarrow> pyval" where
  "timeout_value t = resource_value (t_resources t) ''timeout_ms'' DEFAULT_TIMEOUT_MS"

text \<open>
  When a document violates a rule, stated on the document alone: a name is a duplicate
  when an earlier task has it, an edge endpoint is unknown when no task has that name, and
  the graph has a cycle when the relation of the edges is not acyclic.
\<close>

fun violates :: "'a pylib_scheme \<Rightarrow> FlowDocument \<Rightarrow> rule \<Rightarrow> bool" where
  "violates lib doc R_flow_id \<longleftrightarrow> strip (doc_id doc) = []"
| "violates lib doc R_tenant \<longleftrightarrow> strip (doc_tenant doc) = []"
| "violates lib doc R_no_tasks \<longleftrightarrow> doc_tasks doc = []"
| "violates lib doc (R_task_name i) \<longleftrightarrow> strip (t_name (doc_tasks doc ! i)) = []"
| "violates lib doc (R_duplicate_name i) \<longleftrightarrow>
     t_name (doc_tasks doc ! i) \<in> set (map t_name (take i (doc_tasks doc)))"
| "violates lib doc (R_agent i) \<longleftrightarrow> strip (t_agent (doc_tasks doc ! i)) = []"
| "violates lib doc (R_priority_int i) \<longleftrightarrow>
     coercion_fails lib (priority_value (doc_tasks doc ! i))"
| "violates lib doc (R_timeout_int i) \<longleftrightarrow>
     coercion_fails lib (timeout_value (doc_tasks doc ! i))"
| "violates lib doc (R_timeout_positive i) \<longleftrightarrow>
     (case py_int lib (timeout_value (doc_tasks doc ! i)) of Inl _ \<Rightarrow> False | Inr n \<Rightarrow> n \<le> 0)"
| "violates lib doc (R_edge_source j) \<longleftrightarrow>
     e_source (doc_edges doc ! j) \<notin> set (map t_name (doc_tasks doc))"
| "violates lib doc (R_edge_target j) \<longleftrightarrow>
     e_target (doc_edges doc ! j) \<notin> set (map t_name (doc_tasks doc))"
| "violates lib doc R_risk_level \<longleftrightarrow> p_risk_level (doc_policy doc) \<notin> VALID_RISK_LEVELS"
| "violates lib doc R_cycle \<longleftrightarrow> \<not> acyclic (doc_edge_rel doc)"

text \<open>
  The \<^verbatim>\<open>ValidationError\<close> that reports a rule. The cycle error names a node; it reports
  the cycle rule when that node lies on a cycle.
\<close>

fun reports :: "FlowDocument \<Rightarrow> rule \<Rightarrow> validation_error \<Rightarrow> bool" where
  "reports doc R_flow_id e \<longleftrightarrow> e = FlowIdRequired"
| "reports doc R_tenant e \<longleftrightarrow> e = TenantRequired"
| "reports doc R_no_tasks e \<longleftrightarrow> e = NoTasks"
| "reports doc (R_task_name i) e \<longleftrightarrow> e = TaskNameRequired"
| "reports doc (R_duplicate_name i) e \<longleftrightarrow> e = DuplicateTaskName (t_name (doc_tasks doc ! i))"
| "reports doc (R_agent i) e \<longleftrightarrow> e = AgentRequired (t_name (doc_tasks doc ! i))"
| "reports doc (R_priority_int i) e \<longleftrightarrow>
     e = NotAnInteger (t_name (doc_tasks doc ! i)) ''priority'' (priority_value (doc_tasks doc ! i))"
| "reports doc (R_timeout_int i) e \<longleftrightarrow>
     e = NotAnInteger (t_name (doc_tasks doc ! i)) ''timeout_ms'' (timeout_value (doc_tasks doc ! i))"
| "reports doc (R_timeout_positive i) e \<longleftrightarrow> e = TimeoutNotPositive (t_name (doc_tasks doc ! i))"
| "reports doc (R_edge_source j) e \<longleftrightarrow> e = UnknownEdgeSource (e_source (doc_edges doc ! j))"
| "reports doc (R_edge_target j) e \<longleftrightarrow> e = UnknownEdgeTarget (e_target (doc_edges doc ! j))"
| "reports doc R_risk_level e \<longleftrightarrow> e = InvalidRiskLevel (p_risk_level (doc_policy doc))"
| "reports doc R_cycle e \<longleftrightarrow>
     (case e of CycleDetected n \<Rightarrow> (n, n) \<in> (doc_edge_rel doc)\<^sup>+ | _ \<Rightarrow> False)"

text \<open>
  The order in which the source checks the rules, and the order the specification
  lists, which has no rule on \<^verbatim>\<open>priority\<close> and \<^verbatim>\<open>timeout_ms\<close>.
\<close>

definition task_rules :: "nat \<Rightarrow> rule list" where
  "task_rules i =
     [R_task_name i, R_duplicate_name i, R_agent i,
      R_priority_int i, R_timeout_int i, R_timeout_positive i]"


definition edge_rules :: "nat \<Rightarrow> rule list" where
  "edge_rules j = [R_edge_source j, R_edge_target j]"

definition earlier_rules :: "FlowDocument \<Rightarrow> rule list" where
  "earlier_rules doc =
     [R_flow_id, R_tenant, R_no_tasks]
     @ concat (map task_rules [0..<length (doc_tasks doc)])
     @ concat (map edge_rules [0..<length (doc_edges doc)])
     @ [R_risk_level]"

definition rule_order :: "FlowDocument \<Rightarrow> rule list" where
  "rule_order doc = earlier_rules doc @ [R_cycle]"


text \<open>No integer field of a task makes \<^verbatim>\<open>int(val)\<close> raise \<^verbatim>\<open>OverflowError\<close>.\<close>

definition no_overflow :: "'a pylib_scheme \<Rightarrow> FlowDocument \<Rightarrow> bool" where
  "no_overflow lib doc \<longleftrightarrow>
     (\<forall>t\<in>set (doc_tasks doc).
        py_int lib (priority_value t) \<noteq> Inl OverflowError \<and>
        py_int lib (timeout_value t) \<noteq> Inl OverflowError)"

text \<open>The IR a document is normalised to when no rule is violated.\<close>

definition ir_task_of :: "'a pylib_scheme \<Rightarrow> TaskNode \<Rightarrow> IRTask" where
  "ir_task_of lib t =
     \<lparr>name = t_name t, agent = t_agent t, input = t_input t,
      priority = projr (py_int lib (priority_value t)),
      timeout_ms = projr (py_int lib (timeout_value t)),
      labels = t_labels t\<rparr>"

definition ir_edge_of :: "Edge \<Rightarrow> IREdge" where
  "ir_edge_of e = \<lparr>source = e_source e, target = e_target e, condition = e_condition e\<rparr>"

definition ir_flow_of :: "'a pylib_scheme \<Rightarrow> FlowDocument \<Rightarrow> IRFlow" where
  "ir_flow_of lib doc =
     \<lparr>flow_id = doc_id doc, tenant = doc_tenant doc,
      tasks = map (\<lambda>t. (t_name t, ir_task_of lib t)) (doc_tasks doc),
      edges = map ir_edge_of (doc_edges doc),
      policy = \<lparr>risk_level = p_risk_level (doc_policy doc),
                requires_approval = p_requires_approval (doc_policy doc),
                retention = p_retention (doc_policy doc)\<rparr>\<rparr>"

text \<open>A document passes every check that comes before cycle detection.\<close>

definition passes_earlier_rules :: "'a pylib_scheme \<Rightarrow> FlowDocument \<Rightarrow> bool" where
  "passes_earlier_rules lib doc \<longleftrightarrow>
     no_overflow lib doc \<and> (\<forall>r\<in>set (earlier_rules doc). \<not> violates lib doc r)"

text \<open>A cycle, given by the list of its nodes: consecutive nodes and the last and first node are joined by an edge.\<close>

fun is_path :: "('a \<times> 'a) set \<Rightarrow> 'a list \<Rightarrow> bool" where
  "is_path E [] \<longleftrightarrow> True"
| "is_path E [x] \<longleftrightarrow> True"
| "is_path E (x # y # zs) \<longleftrightarrow> (x, y) \<in> E \<and> is_path E (y # zs)"

definition is_cycle :: "('a \<times> 'a) set \<Rightarrow> 'a list \<Rightarrow> bool" where
  "is_cycle E c \<longleftrightarrow> c \<noteq> [] \<and> is_path E (c @ [hd c])"

section \<open>Specification of the parser\<close>

text \<open>The result is an exception other than \<^verbatim>\<open>ParseError\<close>.\<close>

definition other_exception :: "exc + 'a \<Rightarrow> bool" where
  "other_exception r \<longleftrightarrow>
     (case r of Inl (ParseError _) \<Rightarrow> False | Inl _ \<Rightarrow> True | Inr _ \<Rightarrow> False)"

text \<open>
  The field \<^verbatim>\<open>tasks\<close> of the loaded mapping is absent (or null), is no sequence, or has an
  entry that is no mapping.
\<close>

definition tasks_malformed :: "pydict \<Rightarrow> bool" where
  "tasks_malformed raw \<longleftrightarrow>
     (case map_of raw (PStr ''tasks'') of
        None \<Rightarrow> True
      | Some (PList ts) \<Rightarrow> (\<exists>t\<in>set ts. \<not> is_dict t)
      | Some _ \<Rightarrow> True)"


text \<open>
  The field \<^verbatim>\<open>edges\<close> as the source reads it, through \<^verbatim>\<open>raw.get("edges") or []\<close>: a
  value that is false in Python (null, \<^verbatim>\<open>0\<close>, the empty string, an empty mapping) stands
  for no edges.
\<close>

definition edges_malformed :: "pydict \<Rightarrow> bool" where
  "edges_malformed raw \<longleftrightarrow>
     (case map_of raw (PStr ''edges'') of
        None \<Rightarrow> False
      | Some (PList es) \<Rightarrow> (\<exists>e\<in>set es. \<not> is_dict e)
      | Some v \<Rightarrow> truthy v)"



text \<open>
  The coercions of the parser that no \<^verbatim>\<open>isinstance\<close> test guards, as conditions on the
  loaded value. \<^verbatim>\<open>dict(x or {})\<close> succeeds on the value of a task field; the three
  fields \<^verbatim>\<open>input\<close>, \<^verbatim>\<open>resources\<close> and \<^verbatim>\<open>labels\<close> of a task entry are read when the
  entry is a mapping.
\<close>

definition dict_coercible :: "'a pylib_scheme \<Rightarrow> pyval \<Rightarrow> bool" where
  "dict_coercible lib v \<longleftrightarrow>
     (case py_dict lib (py_or v (PDict [])) of Inl _ \<Rightarrow> False | Inr _ \<Rightarrow> True)"

fun task_fields_coercible :: "'a pylib_scheme \<Rightarrow> pyval \<Rightarrow> bool" where
  "task_fields_coercible lib (PDict t) \<longleftrightarrow>
     dict_coercible lib (dict_get t ''input'' (PDict [])) \<and>
     dict_coercible lib (dict_get t ''resources'' (PDict [])) \<and>
     dict_coercible lib (dict_get t ''labels'' (PDict []))"
| "task_fields_coercible lib _ \<longleftrightarrow> True"

text \<open>
  The policy can be read: it is absent, false in Python, or a mapping.
\<close>

definition policy_readable :: "pydict \<Rightarrow> bool" where
  "policy_readable raw \<longleftrightarrow> is_dict (py_or (dict_get raw ''policy'' PNone) (PDict []))"

text \<open>
  The input raises no exception in the unguarded places, stated on the input: the loader
  raises nothing but \<^verbatim>\<open>YAMLError\<close>; and when the root is a mapping, \<^verbatim>\<open>version\<close> is
  coercible to an integer, the fields of the task entries that come before the first
  entry that is no mapping are coercible to dictionaries, and the policy can be read
  unless the document is refused for its tasks or edges.
\<close>

definition coercions_succeed :: "'a pylib_scheme \<Rightarrow> string \<Rightarrow> bool" where
  "coercions_succeed lib src \<longleftrightarrow>
     (case safe_load lib src of
        Inl e \<Rightarrow> e = YAMLError
      | Inr (PDict raw) \<Rightarrow>
          (case py_int lib (dict_get raw ''version'' (PInt 1)) of
             Inl _ \<Rightarrow> False
           | Inr _ \<Rightarrow>
               (case dict_get raw ''tasks'' PNone of
                  PList ts \<Rightarrow> list_all (task_fields_coercible lib) (takeWhile is_dict ts)
                | _ \<Rightarrow> True) \<and>
               (tasks_malformed raw \<or> edges_malformed raw \<or> policy_readable raw))
      | Inr _ \<Rightarrow> True)"

section \<open>Example documents\<close>

text \<open>
  A runtime for the examples. It iterates a set in reverse insertion order, it leaves
  \<^verbatim>\<open>dfs\<close> a thousand frames, and its loader knows four documents in YAML flow style, with
  the values PyYAML loads from them.
\<close>

definition example_load :: "string \<Rightarrow> exc + pyval" where
  "example_load src =
     (case map_of
        [(''{tasks: [{name: t1, agent: a1}]}'',
            PDict [(PStr ''tasks'',
              PList [PDict [(PStr ''name'', PStr ''t1''), (PStr ''agent'', PStr ''a1'')]])]),
         (''{tasks: [t1]}'', PDict [(PStr ''tasks'', PList [PStr ''t1''])]),
         (''{tasks: [], policy: 5}'',
            PDict [(PStr ''tasks'', PList []), (PStr ''policy'', PInt 5)]),
         (''{tasks: [], edges: 0}'',
            PDict [(PStr ''tasks'', PList []), (PStr ''edges'', PInt 0)])] src of
        None \<Rightarrow> Inl YAMLError
      | Some v \<Rightarrow> Inr v)"

definition example_lib :: pylib where
  "example_lib =
     \<lparr>safe_load = example_load, str_of = (\<lambda>v. []), int_of_str = (\<lambda>s. None),
      dict_of_list = (\<lambda>xs. Inl DictTypeError), set_order = rev, max_depth = 1000\<rparr>"

text \<open>Documents in the style of \<^verbatim>\<open>tests/test_validator.py\<close>.\<close>

definition mk_task :: "string \<Rightarrow> string \<Rightarrow> pydict \<Rightarrow> TaskNode" where
  "mk_task n a res = \<lparr>t_name = n, t_agent = a, t_input = [], t_resources = res, t_labels = []\<rparr>"

definition mk_edge :: "string \<Rightarrow> string \<Rightarrow> Edge" where
  "mk_edge s t = \<lparr>e_source = s, e_target = t, e_condition = PNone\<rparr>"

definition mk_doc :: "TaskNode list \<Rightarrow> Edge list \<Rightarrow> string \<Rightarrow> FlowDocument" where
  "mk_doc ts es risk =
     \<lparr>version = 1, doc_id = ''test-flow'', doc_tenant = ''test-tenant'', doc_tasks = ts,
      doc_edges = es,
      doc_policy = \<lparr>p_risk_level = risk, p_requires_approval = False, p_retention = PNone,
                    p_extra = []\<rparr>\<rparr>"

definition cyclic_doc :: FlowDocument where
  "cyclic_doc =
     mk_doc [mk_task ''t1'' ''a1'' [], mk_task ''t2'' ''a2'' []]
       [mk_edge ''t1'' ''t2'', mk_edge ''t2'' ''t1''] ''low''"

definition infinite_timeout_doc :: FlowDocument where
  "infinite_timeout_doc =
     mk_doc [mk_task ''t1'' ''a1'' [(PStr ''timeout_ms'', PFloat (FInf True))]] [] ''low''"



definition two_self_loops_doc :: FlowDocument where
  "two_self_loops_doc =
     mk_doc [mk_task ''a'' ''x'' [], mk_task ''b'' ''x'' []]
       [mk_edge ''a'' ''a'', mk_edge ''b'' ''b''] ''low''"

definition self_loop_doc :: FlowDocument where
  "self_loop_doc =
     mk_doc [mk_task ''a'' ''x'' [], mk_task ''b'' ''x'' []]
       [mk_edge ''a'' ''b'', mk_edge ''b'' ''b''] ''low''"

text \<open>
  A ring of \<open>n\<close> tasks named \<^verbatim>\<open>t\<close>, \<^verbatim>\<open>tt\<close>, \<^verbatim>\<open>ttt\<close>, ...: each task has an edge to the
  next one, and the last task an edge to the first.
\<close>

definition ring_name :: "nat \<Rightarrow> string" where
  "ring_name i = replicate (Suc i) CHR ''t''"

definition ring_doc :: "nat \<Rightarrow> FlowDocument" where
  "ring_doc n =
     mk_doc (map (\<lambda>i. mk_task (ring_name i) ''a'' []) [0..<n])
       (map (\<lambda>i. mk_edge (ring_name i) (ring_name (Suc i mod n))) [0..<n]) ''low''"

section \<open>Example flows\<close>

text \<open>The flow of \<^verbatim>\<open>tests/test_compiler.py\<close> (\<^verbatim>\<open>HELLO_WORLD\<close>) after validation.\<close>

definition hello_world :: IRFlow where
  "hello_world =
     \<lparr>flow_id = ''example-flow'', tenant = ''demo-tenant'',
      tasks =
        [(''fetch_context'',
            \<lparr>name = ''fetch_context'', agent = ''retriever'',
             input = [(PStr ''query'', PStr ''{{user.input}}'')],
             priority = 10, timeout_ms = 2000, labels = []\<rparr>),
         (''answer'',
            \<lparr>name = ''answer'', agent = ''llm'',
             input = [(PStr ''context_from'', PStr ''fetch_context''),
                      (PStr ''question'', PStr ''{{user.input}}'')],
             priority = 5, timeout_ms = 8000, labels = []\<rparr>)],
      edges = [\<lparr>source = ''fetch_context'', target = ''answer'', condition = PNone\<rparr>],
      policy = \<lparr>risk_level = ''medium'', requires_approval = False, retention = PNone\<rparr>\<rparr>"

text \<open>Three tasks \<open>b\<close>, \<open>c\<close>, \<open>a\<close> and one edge from \<open>b\<close> to \<open>a\<close>.\<close>

definition late_ready :: IRFlow where
  "late_ready =
     \<lparr>flow_id = ''f'', tenant = ''t'',
      tasks =
        [(''b'', \<lparr>name = ''b'', agent = ''x'', input = [], priority = 0, timeout_ms = 10000,
                  labels = []\<rparr>),
         (''c'', \<lparr>name = ''c'', agent = ''x'', input = [], priority = 0, timeout_ms = 10000,
                  labels = []\<rparr>),
         (''a'', \<lparr>name = ''a'', agent = ''x'', input = [], priority = 0, timeout_ms = 10000,
                  labels = []\<rparr>)],
      edges = [\<lparr>source = ''b'', target = ''a'', condition = PNone\<rparr>],
      policy = \<lparr>risk_level = ''low'', requires_approval = False, retention = PNone\<rparr>\<rparr>"

text \<open>One task whose own labels set \<^verbatim>\<open>task_name\<close>.\<close>

definition relabelled :: IRFlow where
  "relabelled =
     \<lparr>flow_id = ''f'', tenant = ''t'',
      tasks =
        [(''a'', \<lparr>name = ''a'', agent = ''x'', input = [], priority = 0, timeout_ms = 10000,
                  labels = [(PStr ''task_name'', PStr ''zzz'')]\<rparr>)],
      edges = [],
      policy = \<lparr>risk_level = ''low'', requires_approval = False, retention = PNone\<rparr>\<rparr>"

text \<open>The flow \<open>hello_world\<close> with its task dictionary filled in the other order.\<close>

definition hello_world_swapped :: IRFlow where
  "hello_world_swapped = hello_world\<lparr>tasks := rev (tasks hello_world)\<rparr>"

section \<open>Correctness of the topological orderer\<close>

lemma index_of_le: "index_of xs x \<le> length xs"
  by (induction xs) auto

lemma index_of_less_iff: "index_of xs x < length xs \<longleftrightarrow> x \<in> set xs"
  by (induction xs) auto

lemma index_of_append_in: "x \<in> set xs \<Longrightarrow> index_of (xs @ ys) x = index_of xs x"
  by (induction xs) auto

lemma index_of_append_notin: "x \<notin> set xs \<Longrightarrow> index_of (xs @ ys) x = length xs + index_of ys x"
  by (induction xs) auto

lemma index_of_nth: "distinct xs \<Longrightarrow> i < length xs \<Longrightarrow> index_of xs (xs ! i) = i"
proof (induction xs arbitrary: i)
  case Nil then show ?case by simp
next
  case (Cons a xs)
  then show ?case by (cases i) auto
qed

lemma relax_spec:
  assumes "\<forall>v\<in>set xs. \<exists>d. map_of ind v = Some d \<and> int (count_list xs v) \<le> d"
  shows "\<exists>ind'. relax xs ind q =
            Inr (ind', q @ filter (\<lambda>v. map_of ind v = Some (int (count_list xs v))) (remdups xs))
          \<and> map fst ind' = map fst ind
          \<and> (\<forall>v. map_of ind' v = map_option (\<lambda>d. d - int (count_list xs v)) (map_of ind v))"
  using assms
proof (induction xs arbitrary: ind q)
  case Nil
  then show ?case by (simp add: option.map_ident)
next
  case (Cons x xs)
  from Cons.prems obtain d where d: "map_of ind x = Some d" and dge: "int (count_list xs x) + 1 \<le> d"
    by auto
  let ?ind1 = "AList.update x (d - 1) ind"
  let ?q1 = "if d - 1 = 0 then q @ [x] else q"
  have m1: "map_of ?ind1 = (map_of ind)(x \<mapsto> d - 1)"
    by (simp add: update_conv')
  have pre: "\<forall>v\<in>set xs. \<exists>d'. map_of ?ind1 v = Some d' \<and> int (count_list xs v) \<le> d'"
  proof
    fix v assume v: "v \<in> set xs"
    show "\<exists>d'. map_of ?ind1 v = Some d' \<and> int (count_list xs v) \<le> d'"
    proof (cases "v = x")
      case True
      with dge show ?thesis by (simp add: m1)
    next
      case False
      with Cons.prems v show ?thesis by (auto simp: m1)
    qed
  qed
  from Cons.IH [OF pre, of ?q1] obtain ind' where
    r: "relax xs ?ind1 ?q1 =
          Inr (ind', ?q1 @ filter (\<lambda>v. map_of ?ind1 v = Some (int (count_list xs v))) (remdups xs))"
    and f: "map fst ind' = map fst ?ind1"
    and m: "\<forall>v. map_of ind' v = map_option (\<lambda>d. d - int (count_list xs v)) (map_of ?ind1 v)"
    by blast
  have dom: "x \<in> fst ` set ind" using d by (force dest: map_of_SomeD)
  have f': "map fst ?ind1 = map fst ind"
    using dom by (simp add: update_keys)
  have q: "?q1 @ filter (\<lambda>v. map_of ?ind1 v = Some (int (count_list xs v))) (remdups xs)
         = q @ filter (\<lambda>v. map_of ind v = Some (int (count_list (x # xs) v))) (remdups (x # xs))"
  proof (cases "x \<in> set xs")
    case True
    then have "0 < count_list xs x" using count_list_0_iff [of xs x] by simp
    with dge have "d - 1 \<noteq> 0" by simp
    moreover have "filter (\<lambda>v. map_of ?ind1 v = Some (int (count_list xs v))) (remdups xs)
        = filter (\<lambda>v. map_of ind v = Some (int (count_list (x # xs) v))) (remdups xs)"
      using d by (intro filter_cong) (auto simp: m1)
    ultimately show ?thesis using True by simp
  next
    case False
    then have c0: "count_list xs x = 0" by (simp add: count_list_0_iff)
    have "filter (\<lambda>v. map_of ?ind1 v = Some (int (count_list xs v))) (remdups xs)
        = filter (\<lambda>v. map_of ind v = Some (int (count_list (x # xs) v))) (remdups xs)"
      using False by (intro filter_cong) (auto simp: m1)
    then show ?thesis using False d c0 by auto
  qed
  have m': "\<forall>v. map_of ind' v = map_option (\<lambda>d. d - int (count_list (x # xs) v)) (map_of ind v)"
    using m d by (auto simp: m1)
  show ?case
    using r f f' q m' d by (intro exI [of _ ind']) simp
qed

lemma adj_get_update:
  "adj_get (AList.update s ts adj) u = (if u = s then ts else adj_get adj u)"
  by (simp add: adj_get_def update_conv')

lemma build_graph_spec:
  assumes "\<forall>e\<in>set es. target e \<in> fst ` set ind"
  shows "\<exists>adj' ind'. build_graph es adj ind = Inr (adj', ind')
          \<and> (\<forall>u. adj_get adj' u = adj_get adj u @ out_edges es u)
          \<and> map fst ind' = map fst ind
          \<and> (\<forall>v. map_of ind' v =
                 map_option (\<lambda>d. d + int (length (filter (\<lambda>e. target e = v) es))) (map_of ind v))"
  using assms
proof (induction es arbitrary: adj ind)
  case Nil
  then show ?case by (simp add: out_edges_def option.map_ident)
next
  case (Cons e es)
  from Cons.prems have "target e \<in> fst ` set ind" by simp
  then obtain d where d: "map_of ind (target e) = Some d"
    by (metis domD dom_map_of_conv_image_fst)
  let ?adj1 = "AList.update (source e) (adj_get adj (source e) @ [target e]) adj"
  let ?ind1 = "AList.update (target e) (d + 1) ind"
  have f1: "map fst ?ind1 = map fst ind"
    using \<open>target e \<in> fst ` set ind\<close> by (simp add: update_keys)
  then have "fst ` set ?ind1 = fst ` set ind"
    by (metis list.set_map)
  with Cons.prems have pre: "\<forall>e\<in>set es. target e \<in> fst ` set ?ind1" by simp
  from Cons.IH [OF pre, of ?adj1] obtain adj' ind' where
    r: "build_graph es ?adj1 ?ind1 = Inr (adj', ind')"
    and a: "\<forall>u. adj_get adj' u = adj_get ?adj1 u @ out_edges es u"
    and f: "map fst ind' = map fst ?ind1"
    and m: "\<forall>v. map_of ind' v =
              map_option (\<lambda>d. d + int (length (filter (\<lambda>e. target e = v) es))) (map_of ?ind1 v)"
    by blast
  have "build_graph (e # es) adj ind = Inr (adj', ind')"
    using r d by simp
  moreover have "\<forall>u. adj_get adj' u = adj_get adj u @ out_edges (e # es) u"
    using a by (simp add: adj_get_update out_edges_def)
  moreover have "\<forall>v. map_of ind' v =
      map_option (\<lambda>d. d + int (length (filter (\<lambda>e. target e = v) (e # es)))) (map_of ind v)"
    using m d by (auto simp: update_conv')
  ultimately show ?case using f f1 by auto
qed

lemma unmet_zero_iff:
  "unmet es ord v = 0 \<longleftrightarrow> (\<forall>e\<in>set es. target e = v \<longrightarrow> source e \<in> set ord)"
  by (auto simp: unmet_def filter_empty_conv)

lemma unmet_snoc:
  "node \<notin> set ord \<Longrightarrow>
   unmet es ord v = unmet es (ord @ [node]) v + count_list (out_edges es node) v"
  by (induction es) (auto simp: unmet_def out_edges_def)

lemma ready_at_le:
  "\<forall>e\<in>set es. target e = v \<longrightarrow> source e \<in> set ord \<Longrightarrow> ready_at es ord v \<le> length ord"
  unfolding ready_at_def
  by (induction es) (auto simp: index_of_less_iff Suc_le_eq)

lemma ready_at_append:
  "\<forall>e\<in>set es. target e = v \<longrightarrow> source e \<in> set ord \<Longrightarrow>
   ready_at es (ord @ xs) v = ready_at es ord v"
  unfolding ready_at_def
  by (induction es) (auto simp: index_of_append_in)

lemma ready_at_ge:
  "e \<in> set es \<Longrightarrow> target e = v \<Longrightarrow> Suc (index_of ord (source e)) \<le> ready_at es ord v"
  unfolding ready_at_def
  by (induction es) (auto simp: max_def)

lemma ready_at_new:
  assumes "\<forall>e\<in>set es. target e = v \<longrightarrow> source e \<in> set (ord @ [node])"
    and "e \<in> set es" "target e = v" "source e = node" "node \<notin> set ord"
  shows "ready_at es (ord @ [node]) v = Suc (length ord)"
proof -
  have "ready_at es (ord @ [node]) v \<le> length (ord @ [node])"
    using assms(1) by (rule ready_at_le)
  moreover have "Suc (index_of (ord @ [node]) node) \<le> ready_at es (ord @ [node]) v"
    using ready_at_ge [OF assms(2,3), of "ord @ [node]"] assms(4) by simp
  moreover have "index_of (ord @ [node]) node = length ord"
    using assms(5) by (simp add: index_of_append_notin)
  ultimately show ?thesis by simp
qed

lemma count_list_sort: "count_list (sort xs) v = count_list xs v"
  by (metis count_mset mset_sort)

lemma kahn_inv_preds:
  assumes "kahn_inv es V ind q ord" "a \<in> set (ord @ q)" "e \<in> set es" "target e = a"
  shows "source e \<in> set ord"
proof (cases "a \<in> set ord")
  case True
  with assms have "index_of ord (source e) < index_of ord a"
    by (auto simp: kahn_inv_def)
  also have "\<dots> \<le> length ord" by (rule index_of_le)
  finally show ?thesis by (simp add: index_of_less_iff)
next
  case False
  with assms have "a \<in> set q" "a \<in> set V" by (auto simp: kahn_inv_def)
  with assms(1) have "unmet es ord a = 0" by (auto simp: kahn_inv_def)
  with assms(3,4) show ?thesis by (auto simp: unmet_zero_iff)
qed

lemma kahn_step:
  assumes inv: "kahn_inv es V ind (node # q) ord"
    and ends: "\<forall>e\<in>set es. source e \<in> set V \<and> target e \<in> set V"
    and adj: "\<forall>u. adj_get adj u = out_edges es u"
  shows "\<exists>ind' q'. relax (sort (adj_get adj node)) ind q = Inr (ind', q')
           \<and> kahn_inv es V ind' q' (ord @ [node])"
proof -
  let ?xs = "sort (out_edges es node)"
  let ?ord' = "ord @ [node]"
  let ?new = "filter (\<lambda>v. map_of ind v = Some (int (count_list ?xs v))) (remdups ?xs)"
  from inv have dist: "distinct (ord @ node # q)" and sub: "set (ord @ node # q) \<subseteq> set V"
    and dom: "fst ` set ind = set V"
    and deg: "\<forall>v\<in>set V. map_of ind v = Some (int (unmet es ord v))"
    and rdy: "\<forall>v\<in>set V. v \<in> set (node # q) \<longleftrightarrow> v \<notin> set ord \<and> unmet es ord v = 0"
    and eord: "\<forall>e\<in>set es. target e \<in> set ord \<longrightarrow> index_of ord (source e) < index_of ord (target e)"
    and srt: "sorted_wrt (key_less es ord) (ord @ node # q)"
    by (simp_all add: kahn_inv_def)
  have node: "node \<notin> set ord" "node \<in> set V" "node \<notin> set q"
    using dist sub by auto
  have cnt: "\<And>v. count_list ?xs v = count_list (out_edges es node) v"
    by (rule count_list_sort)
  have xsV: "\<And>v. v \<in> set ?xs \<Longrightarrow> v \<in> set V"
    using ends by (auto simp: out_edges_def)
  have split: "\<And>v. unmet es ord v = unmet es ?ord' v + count_list ?xs v"
    using unmet_snoc [OF node(1)] cnt by simp
  have pre: "\<forall>v\<in>set ?xs. \<exists>d. map_of ind v = Some d \<and> int (count_list ?xs v) \<le> d"
  proof
    fix v assume "v \<in> set ?xs"
    then have "map_of ind v = Some (int (unmet es ord v))" using deg xsV by blast
    then show "\<exists>d. map_of ind v = Some d \<and> int (count_list ?xs v) \<le> d"
      using split [of v] by simp
  qed
  from relax_spec [OF pre, of q] obtain ind' where
    r: "relax ?xs ind q = Inr (ind', q @ ?new)"
    and f: "map fst ind' = map fst ind"
    and m: "\<forall>v. map_of ind' v = map_option (\<lambda>d. d - int (count_list ?xs v)) (map_of ind v)"
    by blast
  have dom': "fst ` set ind' = set V"
    using f dom by (metis list.set_map)
  have deg': "\<forall>v\<in>set V. map_of ind' v = Some (int (unmet es ?ord' v))"
  proof
    fix v assume "v \<in> set V"
    with deg have "map_of ind v = Some (int (unmet es ord v))" by blast
    with m have "map_of ind' v = Some (int (unmet es ord v) - int (count_list ?xs v))" by simp
    then show "map_of ind' v = Some (int (unmet es ?ord' v))"
      using split [of v] by simp
  qed
  have new_iff: "\<And>v. v \<in> set ?new \<longleftrightarrow> v \<in> set ?xs \<and> unmet es ?ord' v = 0"
  proof -
    fix v
    show "v \<in> set ?new \<longleftrightarrow> v \<in> set ?xs \<and> unmet es ?ord' v = 0"
    proof (cases "v \<in> set ?xs")
      case True
      then have "map_of ind v = Some (int (unmet es ord v))" using deg xsV by blast
      then show ?thesis using True split [of v] by auto
    next
      case False
      then show ?thesis by simp
    qed
  qed
  have xs_edge: "\<And>v. v \<in> set ?xs \<Longrightarrow> \<exists>e\<in>set es. source e = node \<and> target e = v"
    by (auto simp: out_edges_def)
  have xs_pos: "\<And>v. v \<in> set ?xs \<Longrightarrow> 0 < unmet es ord v"
  proof -
    fix v assume "v \<in> set ?xs"
    then obtain e where "e \<in> set es" "source e = node" "target e = v"
      using xs_edge by blast
    with node(1) have "\<not> (\<forall>e\<in>set es. target e = v \<longrightarrow> source e \<in> set ord)" by blast
    then have "unmet es ord v \<noteq> 0" by (simp only: unmet_zero_iff) simp
    then show "0 < unmet es ord v" by simp
  qed
  have new_fresh: "\<And>v. v \<in> set ?new \<Longrightarrow> v \<notin> set (ord @ node # q)"
  proof
    fix v assume v: "v \<in> set ?new" and old: "v \<in> set (ord @ node # q)"
    from v have vx: "v \<in> set ?xs" by simp
    then obtain e where e: "e \<in> set es" "source e = node" "target e = v"
      using xs_edge by blast
    from kahn_inv_preds [OF inv old e(1) e(3)] e(2) node(1) show False by simp
  qed
  have new_sorted: "sorted_wrt (<) ?new"
  proof -
    have "sorted (remdups ?xs)" "distinct (remdups ?xs)"
      by (simp_all add: sorted_remdups)
    then have "sorted ?new" "distinct ?new"
      by (simp_all add: sorted_wrt_filter)
    then show ?thesis by (simp add: strict_sorted_iff)
  qed
  have c1: "distinct (?ord' @ q @ ?new)"
    using dist new_fresh new_sorted by (auto simp: strict_sorted_iff)
  have c2: "set (?ord' @ q @ ?new) \<subseteq> set V"
    using sub xsV by auto
  have c5: "\<forall>v\<in>set V. v \<in> set (q @ ?new) \<longleftrightarrow> v \<notin> set ?ord' \<and> unmet es ?ord' v = 0"
  proof
    fix v assume vV: "v \<in> set V"
    show "v \<in> set (q @ ?new) \<longleftrightarrow> v \<notin> set ?ord' \<and> unmet es ?ord' v = 0"
    proof
      assume "v \<in> set (q @ ?new)"
      then consider "v \<in> set q" | "v \<in> set ?new" by auto
      then show "v \<notin> set ?ord' \<and> unmet es ?ord' v = 0"
      proof cases
        case 1
        with dist have "v \<notin> set ?ord'" by auto
        moreover from 1 rdy vV have "unmet es ord v = 0" by auto
        then have "unmet es ?ord' v = 0" using split [of v] by simp
        ultimately show ?thesis by simp
      next
        case 2
        with new_fresh [of v] new_iff [of v] show ?thesis by auto
      qed
    next
      assume a: "v \<notin> set ?ord' \<and> unmet es ?ord' v = 0"
      show "v \<in> set (q @ ?new)"
      proof (cases "v \<in> set ?xs")
        case True
        with a new_iff [of v] show ?thesis by simp
      next
        case False
        then have "count_list ?xs v = 0" by simp
        with a split [of v] have "unmet es ord v = 0" by simp
        with a rdy vV have "v \<in> set (node # q)" by auto
        with a show ?thesis by auto
      qed
    qed
  qed
  have node0: "unmet es ord node = 0"
    using rdy node by auto
  have c6: "\<forall>e\<in>set es. target e \<in> set ?ord' \<longrightarrow>
              index_of ?ord' (source e) < index_of ?ord' (target e)"
  proof (intro ballI impI)
    fix e assume e: "e \<in> set es" and t: "target e \<in> set ?ord'"
    show "index_of ?ord' (source e) < index_of ?ord' (target e)"
    proof (cases "target e \<in> set ord")
      case True
      with eord e have lt: "index_of ord (source e) < index_of ord (target e)" by blast
      also have "\<dots> \<le> length ord" by (rule index_of_le)
      finally have "source e \<in> set ord" by (simp add: index_of_less_iff)
      with True lt show ?thesis by (simp add: index_of_append_in)
    next
      case False
      with t have tn: "target e = node" by simp
      with node0 e have s: "source e \<in> set ord" by (auto simp: unmet_zero_iff)
      then have "index_of ?ord' (source e) < length ord"
        by (simp add: index_of_append_in index_of_less_iff)
      moreover have "index_of ?ord' node = length ord"
        using node(1) by (simp add: index_of_append_notin)
      ultimately show ?thesis using tn by simp
    qed
  qed
  have old_preds: "\<And>a. a \<in> set (ord @ node # q) \<Longrightarrow>
                     \<forall>e\<in>set es. target e = a \<longrightarrow> source e \<in> set ord"
    using kahn_inv_preds [OF inv] by blast
  have old_key: "\<And>a. a \<in> set (ord @ node # q) \<Longrightarrow> ready_at es ?ord' a = ready_at es ord a"
    using old_preds by (simp add: ready_at_append)
  have old_le: "\<And>a. a \<in> set (ord @ node # q) \<Longrightarrow> ready_at es ?ord' a \<le> length ord"
    using old_preds old_key ready_at_le by metis
  have new_key: "\<And>v. v \<in> set ?new \<Longrightarrow> ready_at es ?ord' v = Suc (length ord)"
  proof -
    fix v assume v: "v \<in> set ?new"
    then have vx: "v \<in> set ?xs" and z: "unmet es ?ord' v = 0" using new_iff [of v] by auto
    from vx obtain e where e: "e \<in> set es" "source e = node" "target e = v"
      using xs_edge by blast
    from z have "\<forall>e\<in>set es. target e = v \<longrightarrow> source e \<in> set ?ord'"
      by (simp only: unmet_zero_iff)
    from ready_at_new [OF this e(1) e(3) e(2) node(1)]
    show "ready_at es ?ord' v = Suc (length ord)" .
  qed
  have s_old: "sorted_wrt (key_less es ?ord') (ord @ node # q)"
    using srt
  proof (rule sorted_wrt_mono_rel [rotated])
    fix a b assume "a \<in> set (ord @ node # q)" "b \<in> set (ord @ node # q)" "key_less es ord a b"
    then show "key_less es ?ord' a b"
      using old_key by (simp add: key_less_def)
  qed
  have s_new: "sorted_wrt (key_less es ?ord') ?new"
    using new_sorted
  proof (rule sorted_wrt_mono_rel [rotated])
    fix a b assume "a \<in> set ?new" "b \<in> set ?new" "a < b"
    then show "key_less es ?ord' a b"
      using new_key [of a] new_key [of b] by (simp add: key_less_def)
  qed
  have s_cross: "\<forall>a\<in>set (ord @ node # q). \<forall>b\<in>set ?new. key_less es ?ord' a b"
  proof (intro ballI)
    fix a b assume "a \<in> set (ord @ node # q)" "b \<in> set ?new"
    then show "key_less es ?ord' a b"
      using old_le [of a] new_key [of b] by (simp add: key_less_def)
  qed
  have "sorted_wrt (key_less es ?ord') ((ord @ node # q) @ ?new)"
    using s_old s_new s_cross by (simp only: sorted_wrt_append) simp
  then have c7: "sorted_wrt (key_less es ?ord') (?ord' @ q @ ?new)" by simp
  have "kahn_inv es V ind' (q @ ?new) ?ord'"
    unfolding kahn_inv_def using c1 c2 dom' deg' c5 c6 c7 by simp
  with r adj show ?thesis by auto
qed

lemma kahn_loop_inv:
  assumes "kahn_inv es V ind q ord"
    and "\<forall>e\<in>set es. source e \<in> set V \<and> target e \<in> set V"
    and "\<forall>u. adj_get adj u = out_edges es u"
  shows "\<exists>res ind'. kahn_loop adj ind q ord = Inr res \<and> kahn_inv es V ind' [] res"
  using assms
proof (induction adj ind q ord rule: kahn_loop.induct)
  case (1 adj in_degree order)
  then show ?case by auto
next
  case (2 adj in_degree node queue order)
  from kahn_step [OF "2.prems"] obtain ind' q' where
    r: "relax (sort (adj_get adj node)) in_degree queue = Inr (ind', q')"
    and i: "kahn_inv es V ind' q' (order @ [node])"
    by blast
  from "2.IH" [OF r refl i "2.prems"(2,3)] r show ?case by simp
qed

lemma kahn_final_all:
  assumes inv: "kahn_inv es V ind [] res"
    and ends: "\<forall>e\<in>set es. source e \<in> set V \<and> target e \<in> set V"
    and acyc: "acyclic ((\<lambda>e. (source e, target e)) ` set es)"
  shows "set res = set V"
proof (rule ccontr)
  let ?E = "(\<lambda>e. (source e, target e)) ` set es"
  let ?R = "set V - set res"
  assume "set res \<noteq> set V"
  moreover from inv have "set res \<subseteq> set V" by (simp add: kahn_inv_def)
  ultimately obtain x where x: "x \<in> ?R" by blast
  have "wf ?E" using acyc by (simp add: finite_acyclic_wf)
  then obtain z where z: "z \<in> ?R" and zmin: "\<And>y. (y, z) \<in> ?E \<Longrightarrow> y \<notin> ?R"
    using x by (rule wfE_min) blast
  from inv z have "unmet es res z \<noteq> 0" by (auto simp: kahn_inv_def)
  then obtain e where e: "e \<in> set es" "target e = z" "source e \<notin> set res"
    by (auto simp: unmet_zero_iff)
  with ends have "source e \<in> ?R" by blast
  moreover from e have "(source e, z) \<in> ?E" by force
  ultimately show False using zmin by blast
qed

lemma sorted_map_fst: "sorted (ps :: ('a::linorder \<times> 'b::linorder) list) \<Longrightarrow> sorted (map fst ps)"
  by (induction ps) (auto simp: less_eq_prod_def)

lemma ready_at_source: "\<forall>e\<in>set es. target e \<noteq> v \<Longrightarrow> ready_at es ord v = 0"
  by (simp add: ready_at_def filter_False)

lemma kahn_init:
  assumes dV: "distinct V"
    and ends: "\<forall>e\<in>set es. source e \<in> set V \<and> target e \<in> set V"
    and fst_ind: "map fst ind = V"
    and deg: "\<forall>v. map_of ind v =
                map_option (\<lambda>d. d + int (length (filter (\<lambda>e. target e = v) es)))
                  (map_of (map (\<lambda>n. (n, 0)) V) v)"
  shows "kahn_inv es V ind (map fst (filter (\<lambda>p. snd p = 0) (sort ind))) []"
proof -
  let ?q = "map fst (filter (\<lambda>p. snd p = 0) (sort ind))"
  have deg0: "\<And>v. v \<in> set V \<Longrightarrow> map_of ind v = Some (int (unmet es [] v))"
  proof -
    fix v assume "v \<in> set V"
    then have "map_of (map (\<lambda>n. (n, 0::int)) V) v = Some 0"
      by (induction V) auto
    with deg show "map_of ind v = Some (int (unmet es [] v))"
      by (simp add: unmet_def)
  qed
  have dind: "distinct (map fst ind)" using dV fst_ind by simp
  have mem: "\<And>v d. (v, d) \<in> set ind \<longleftrightarrow> map_of ind v = Some d"
    using dind by (auto dest: map_of_SomeD intro: map_of_is_SomeI)
  have q_iff: "\<And>v. v \<in> set ?q \<longleftrightarrow> map_of ind v = Some 0"
    using mem by force
  have "mset (map fst (sort ind)) = mset (map fst ind)" by simp
  then have "distinct (map fst (sort ind))"
    using dind by (metis distinct_count_atmost_1 set_mset_mset)
  then have dq: "distinct ?q" by (simp add: distinct_map_filter)
  have "sorted (map fst (sort ind))" by (simp add: sorted_map_fst)
  then have "sorted ?q" by (rule sorted_filter)
  with dq have sq: "sorted_wrt (<) ?q" by (simp add: strict_sorted_iff)
  have subV: "set ?q \<subseteq> set V"
    using fst_ind by (metis (no_types, lifting) domI dom_map_of_conv_image_fst list.set_map q_iff subsetI)
  have c5: "\<forall>v\<in>set V. v \<in> set ?q \<longleftrightarrow> v \<notin> set [] \<and> unmet es [] v = 0"
    using q_iff deg0 by simp
  have src: "\<And>v. v \<in> set ?q \<Longrightarrow> ready_at es [] v = 0"
  proof -
    fix v assume v: "v \<in> set ?q"
    with subV have "v \<in> set V" by blast
    with v c5 have "unmet es [] v = 0" by blast
    then have "\<forall>e\<in>set es. target e \<noteq> v" by (auto simp: unmet_zero_iff)
    then show "ready_at es [] v = 0" by (rule ready_at_source)
  qed
  have c7: "sorted_wrt (key_less es []) ?q"
    using sq
  proof (rule sorted_wrt_mono_rel [rotated])
    fix a b assume "a \<in> set ?q" "b \<in> set ?q" "a < b"
    then show "key_less es [] a b" using src by (simp add: key_less_def)
  qed
  have "fst ` set ind = set V" using fst_ind by (metis list.set_map)
  then show ?thesis
    unfolding kahn_inv_def using dq subV deg0 c5 c7 by simp
qed

lemma topological_order_correct:
  assumes "graph_ok flow"
  shows "\<exists>ord. topological_order flow = Inr ord \<and> distinct ord
           \<and> set ord = fst ` set (tasks flow)
           \<and> (\<forall>e\<in>set (edges flow). index_of ord (source e) < index_of ord (target e))
           \<and> sorted_wrt (key_less (edges flow) ord) ord"
proof -
  let ?V = "map fst (tasks flow)" and ?es = "edges flow"
  let ?ind0 = "map (\<lambda>n. (n, 0::int)) ?V"
  from assms have dV: "distinct ?V"
    and ends: "\<forall>e\<in>set ?es. source e \<in> set ?V \<and> target e \<in> set ?V"
    and acyc: "acyclic ((\<lambda>e. (source e, target e)) ` set ?es)"
    by (simp_all add: graph_ok_def edge_rel_def)
  have f0: "map fst ?ind0 = ?V" by (simp add: comp_def)
  then have "fst ` set ?ind0 = set ?V" by (metis list.set_map)
  with ends have "\<forall>e\<in>set ?es. target e \<in> fst ` set ?ind0" by simp
  from build_graph_spec [OF this, of "[]"] obtain adj ind where
    b: "build_graph ?es [] ?ind0 = Inr (adj, ind)"
    and a: "\<forall>u. adj_get adj u = adj_get [] u @ out_edges ?es u"
    and f: "map fst ind = map fst ?ind0"
    and m: "\<forall>v. map_of ind v =
              map_option (\<lambda>d. d + int (length (filter (\<lambda>e. target e = v) ?es))) (map_of ?ind0 v)"
    by blast
  from a have adj: "\<forall>u. adj_get adj u = out_edges ?es u" by (simp add: adj_get_def)
  let ?q = "map fst (filter (\<lambda>p. snd p = 0) (sort ind))"
  have "kahn_inv ?es ?V ind ?q []"
    using dV ends _ m by (rule kahn_init) (simp add: f f0)
  from kahn_loop_inv [OF this ends adj] obtain res ind' where
    k: "kahn_loop adj ind ?q [] = Inr res" and inv: "kahn_inv ?es ?V ind' [] res"
    by blast
  have all: "set res = set ?V" using inv ends acyc by (rule kahn_final_all)
  have "topological_order flow = Inr res"
    using b k by (simp add: topological_order_def)
  moreover from inv have "distinct res" by (simp add: kahn_inv_def)
  moreover have "\<forall>e\<in>set ?es. index_of res (source e) < index_of res (target e)"
    using inv ends all by (simp add: kahn_inv_def)
  moreover from inv have "sorted_wrt (key_less ?es res) res" by (simp add: kahn_inv_def)
  ultimately show ?thesis using all by auto
qed

section \<open>The projections and the claims about the compiler\<close>

lemma nth_index_of: "x \<in> set xs \<Longrightarrow> xs ! index_of xs x = x"
  by (induction xs) auto

lemma graph_ok_if_valid: "valid_IRFlow flow \<Longrightarrow> graph_ok flow"
  by (simp add: valid_IRFlow_def)

lemma monolith_loop_spec:
  "set ns \<subseteq> dom (map_of (tasks flow)) \<Longrightarrow>
   monolith_loop flow ns acc =
     Inr (acc @ map (\<lambda>n. monolith_payload flow (the (map_of (tasks flow) n))) ns)"
  by (induction ns arbitrary: acc) auto

lemma waterfall_tasks_spec:
  "set ns \<subseteq> dom (map_of (tasks flow)) \<Longrightarrow>
   waterfall_tasks flow ns = Inr (map (\<lambda>n. waterfall_task (the (map_of (tasks flow) n))) ns)"
  by (induction ns) auto

lemma map_of_fold_update:
  "map_of (fold (\<lambda>(k, v). AList.update k v) ps qs) k =
     (case map_of (rev ps) k of None \<Rightarrow> map_of qs k | Some v \<Rightarrow> Some v)"
proof (induction ps arbitrary: qs)
  case Nil
  then show ?case by simp
next
  case (Cons p ps)
  obtain a b where p: "p = (a, b)" by (cases p)
  show ?case
    by (simp add: p Cons.IH update_conv' map_add_def split: option.splits)
qed

lemma map_of_rev_distinct: "distinct (map fst ps) \<Longrightarrow> map_of (rev ps) = map_of ps"
proof (induction ps)
  case Nil
  then show ?case by simp
next
  case (Cons p ps)
  then have ih: "map_of (rev ps) = map_of ps" and notin: "fst p \<notin> fst ` set ps" by simp_all
  have none: "map_of ps (fst p) = None"
    using notin by (simp add: map_of_eq_None_iff)
  show ?case
  proof
    fix x
    show "map_of (rev (p # ps)) x = map_of (p # ps) x"
      using ih none by (cases p) (auto simp: map_add_def split: option.splits)
  qed
qed

lemma monolith_labels_own:
  "distinct (map fst (labels t)) \<Longrightarrow> map_of (labels t) k = Some v \<Longrightarrow>
   map_of (monolith_labels flow t) k = Some v"
  by (simp add: monolith_labels_def map_of_fold_update map_of_rev_distinct)

lemma monolith_labels_derived:
  assumes "map_of (labels t) (PStr ''task_name'') = None"
  shows "map_of (monolith_labels flow t) (PStr ''task_name'') = Some (PStr (name t))"
proof -
  from assms have "PStr ''task_name'' \<notin> fst ` set (labels t)"
    by (simp add: map_of_eq_None_iff)
  then have "map_of (rev (labels t)) (PStr ''task_name'') = None"
    by (simp add: map_of_eq_None_iff)
  then show ?thesis
    by (simp add: monolith_labels_def map_of_fold_update)
qed

lemma order_in_dom:
  assumes "graph_ok flow" "topological_order flow = Inr ord"
  shows "set ord \<subseteq> dom (map_of (tasks flow))" "distinct ord" "set ord = fst ` set (tasks flow)"
  using topological_order_correct [OF assms(1)] assms(2)
  by (auto simp: dom_map_of_conv_image_fst)

text \<open>
  Claim C1. For every valid flow the orderer returns a sequence that is a permutation of
  the task names (so its length is the number of tasks), and for every edge the source
  stands at a strictly smaller position than the target.
\<close>

theorem topological_order_is_topological:
  assumes "valid_IRFlow flow"
  shows "\<exists>ord. topological_order flow = Inr ord
           \<and> mset ord = mset (map fst (tasks flow))
           \<and> length ord = length (tasks flow)
           \<and> (\<forall>e\<in>set (edges flow).
                 \<exists>i j. i < j \<and> j < length ord \<and> ord ! i = source e \<and> ord ! j = target e)"
proof -
  from assms have g: "graph_ok flow" by (rule graph_ok_if_valid)
  from topological_order_correct [OF g] obtain ord where
    t: "topological_order flow = Inr ord" and d: "distinct ord"
    and s: "set ord = fst ` set (tasks flow)"
    and e: "\<forall>e\<in>set (edges flow). index_of ord (source e) < index_of ord (target e)"
    by blast
  from g have dV: "distinct (map fst (tasks flow))" by (simp add: graph_ok_def)
  from s have "set ord = set (map fst (tasks flow))" by simp
  with d dV have m: "mset ord = mset (map fst (tasks flow))"
    by (simp only: set_eq_iff_mset_eq_distinct)
  then have l: "length ord = length (tasks flow)"
    by (metis length_map size_mset)
  have "\<exists>i j. i < j \<and> j < length ord \<and> ord ! i = source x \<and> ord ! j = target x"
    if x: "x \<in> set (edges flow)" for x
  proof -
    from g x s have mem: "source x \<in> set ord" "target x \<in> set ord"
      by (auto simp: graph_ok_def)
    let ?i = "index_of ord (source x)" and ?j = "index_of ord (target x)"
    from e x have "?i < ?j" by blast
    moreover from mem have "?j < length ord" by (simp add: index_of_less_iff)
    moreover from mem have "ord ! ?i = source x" "ord ! ?j = target x"
      by (simp_all add: nth_index_of)
    ultimately show ?thesis by blast
  qed
  with t m l show ?thesis by blast
qed

theorem topological_order_is_topological_witness:
  "valid_IRFlow hello_world \<and>
   (\<exists>ord. topological_order hello_world = Inr ord
      \<and> mset ord = mset (map fst (tasks hello_world))
      \<and> length ord = length (tasks hello_world)
      \<and> (\<forall>e\<in>set (edges hello_world).
            \<exists>i j. i < j \<and> j < length ord \<and> ord ! i = source e \<and> ord ! j = target e))"
proof -
  have v: "valid_IRFlow hello_world" by code_simp
  from topological_order_is_topological [OF v] v show ?thesis by blast
qed

text \<open>
  Claim C2 as stated fails. In the flow \<open>late_ready\<close> the task \<open>a\<close> becomes ready when
  \<open>b\<close> is emitted, but it is appended behind \<open>c\<close>, which has been waiting in the queue:
  the second task emitted is \<open>c\<close> although the smaller name \<open>a\<close> is ready.
\<close>

theorem smallest_ready_first_counterexample:
  "valid_IRFlow late_ready \<and>
   topological_order late_ready = Inr [''b'', ''c'', ''a''] \<and>
   \<not> smallest_ready_first late_ready [''b'', ''c'', ''a'']"
proof -
  have v: "valid_IRFlow late_ready" by code_simp
  have t: "topological_order late_ready = Inr [''b'', ''c'', ''a'']" by code_simp
  have r: "ready (edges late_ready) (take 1 [''b'', ''c'', ''a'']) ''a''"
    by (simp add: ready_def late_ready_def)
  have n: "\<not> [''b'', ''c'', ''a''] ! 1 \<le> ''a''" by code_simp
  have m: "''a'' \<in> fst ` set (tasks late_ready)" by (simp add: late_ready_def)
  have "\<not> smallest_ready_first late_ready [''b'', ''c'', ''a'']"
  proof
    assume "smallest_ready_first late_ready [''b'', ''c'', ''a'']"
    then have "\<forall>v\<in>fst ` set (tasks late_ready).
        ready (edges late_ready) (take 1 [''b'', ''c'', ''a'']) v \<longrightarrow> [''b'', ''c'', ''a''] ! 1 \<le> v"
      unfolding smallest_ready_first_def by (elim allE [of _ 1]) simp
    with m r n show False by blast
  qed
  with v t show ?thesis by simp
qed

text \<open>
  Claim C2, amended. For every valid flow the orderer emits the tasks in ascending order
  of the pair (number of emitted tasks after which the task became ready, name): the
  ready queue is first in, first out; the tasks without predecessors come first, and the
  tasks that become ready together are emitted in lexicographic order of their names.
\<close>

theorem topological_order_first_in_first_out:
  assumes "valid_IRFlow flow"
  shows "\<exists>ord. topological_order flow = Inr ord \<and> sorted_wrt (key_less (edges flow) ord) ord"
  using topological_order_correct [OF graph_ok_if_valid [OF assms]] by blast

theorem topological_order_first_in_first_out_witness:
  "valid_IRFlow late_ready \<and>
   (\<exists>ord. topological_order late_ready = Inr ord \<and> sorted_wrt (key_less (edges late_ready) ord) ord)"
proof -
  have v: "valid_IRFlow late_ready" by code_simp
  from topological_order_first_in_first_out [OF v] v show ?thesis by blast
qed

lemma artifact_names:
  assumes g: "graph_ok flow"
  shows "\<exists>ord. topological_order flow = Inr ord
    \<and> artifact_A_names flow =
        Inr (map (\<lambda>n. map_of (monolith_labels flow (the (map_of (tasks flow) n))) (PStr ''task_name'')) ord)
    \<and> artifact_B_names flow = Inr (map (\<lambda>n. Some (PStr (name (the (map_of (tasks flow) n))))) ord)"
proof -
  from topological_order_correct [OF g] obtain ord where t: "topological_order flow = Inr ord"
    by blast
  from order_in_dom(1) [OF g t] have sub: "set ord \<subseteq> dom (map_of (tasks flow))" .
  have a: "artifact_A_names flow =
      Inr (map (\<lambda>n. map_of (monolith_labels flow (the (map_of (tasks flow) n))) (PStr ''task_name'')) ord)"
    by (simp add: artifact_A_names_def ir_to_monolith_tasks_def t monolith_loop_spec [OF sub]
        payload_names_def monolith_payload_def comp_def split: option.split)
  have b: "artifact_B_names flow = Inr (map (\<lambda>n. Some (PStr (name (the (map_of (tasks flow) n))))) ord)"
    by (simp add: artifact_B_names_def ir_to_waterfall_spec_def t waterfall_tasks_spec [OF sub]
        spec_names_def waterfall_task_def comp_def)
  from t a b show ?thesis by blast
qed



text \<open>
  The payloads of artifact A hold the name of their task only as the label
  \<^verbatim>\<open>task_name\<close>. Where no task's own labels have that key, the labels read from
  artifact A are the names read from artifact B.
\<close>

lemma task_name_labels_agree:
  assumes v: "valid_IRFlow flow"
    and nolabel: "\<forall>p\<in>set (tasks flow). map_of (labels (snd p)) (PStr ''task_name'') = None"
  shows "\<exists>ns. artifact_A_names flow = Inr ns \<and> artifact_B_names flow = Inr ns"
proof -
  from v have g: "graph_ok flow" by (rule graph_ok_if_valid)
  from artifact_names [OF g] obtain ord where t: "topological_order flow = Inr ord"
    and a: "artifact_A_names flow =
      Inr (map (\<lambda>n. map_of (monolith_labels flow (the (map_of (tasks flow) n))) (PStr ''task_name'')) ord)"
    and b: "artifact_B_names flow = Inr (map (\<lambda>n. Some (PStr (name (the (map_of (tasks flow) n))))) ord)"
    by blast
  have "map_of (monolith_labels flow (the (map_of (tasks flow) n))) (PStr ''task_name'')
        = Some (PStr (name (the (map_of (tasks flow) n))))" if n: "n \<in> set ord" for n
  proof -
    from order_in_dom(1) [OF g t] n obtain tk where tk: "map_of (tasks flow) n = Some tk" by blast
    then have "(n, tk) \<in> set (tasks flow)" by (rule map_of_SomeD)
    with nolabel have "map_of (labels tk) (PStr ''task_name'') = None" by force
    then show ?thesis by (simp add: tk monolith_labels_derived)
  qed
  with a b show ?thesis by simp
qed

lemma monolith_loop_Inr:
  "monolith_loop flow ns acc = Inr ps \<Longrightarrow>
   ps = acc @ map (\<lambda>n. monolith_payload flow (the (map_of (tasks flow) n))) ns"
proof (induction ns arbitrary: acc)
  case Nil
  then show ?case by simp
next
  case (Cons n ns)
  from Cons.prems obtain t where t: "map_of (tasks flow) n = Some t"
    by (auto split: option.splits)
  with Cons.prems have "monolith_loop flow ns (acc @ [monolith_payload flow t]) = Inr ps"
    by simp
  from Cons.IH [OF this] t show ?case by simp
qed

text \<open>
  Claim C9. In the task-payload projection the payload at position \<open>i\<close> is built from the
  task \<open>t\<close> named at position \<open>i\<close> of the topological order; when the labels of \<open>t\<close>
  have one of the keys \<^verbatim>\<open>flow_id\<close>, \<^verbatim>\<open>task_name\<close>, \<^verbatim>\<open>agent\<close>, the entry of
  \<^verbatim>\<open>meta.labels\<close> for that key is the task's own value.
\<close>

theorem own_labels_take_precedence:
  assumes "topological_order flow = Inr ord"
    and "ir_to_monolith_tasks flow = Inr ps"
    and "i < length ord"
    and "map_of (tasks flow) (ord ! i) = Some t"
    and "key \<in> {''flow_id'', ''task_name'', ''agent''}"
    and "distinct (map fst (labels t))"
    and "map_of (labels t) (PStr key) = Some v"
  shows "i < length ps \<and> py_path (ps ! i) [''meta'', ''labels'', key] = Some v"
proof -
  from assms(1,2) have "monolith_loop flow ord [] = Inr ps"
    by (simp add: ir_to_monolith_tasks_def)
  then have ps: "ps = map (\<lambda>n. monolith_payload flow (the (map_of (tasks flow) n))) ord"
    using monolith_loop_Inr by fastforce
  with assms(3,4) have p: "i < length ps" "ps ! i = monolith_payload flow t" by simp_all
  from monolith_labels_own [OF assms(6,7)]
  have "map_of (monolith_labels flow t) (PStr key) = Some v" .
  then have "py_path (monolith_payload flow t) [''meta'', ''labels'', key] = Some v"
    by (simp add: monolith_payload_def)
  with p show ?thesis by simp
qed

theorem own_labels_take_precedence_witness:
  "topological_order relabelled = Inr [''a''] \<and>
   ir_to_monolith_tasks relabelled = Inr [monolith_payload relabelled (snd (hd (tasks relabelled)))] \<and>
   (0::nat) < length [''a''] \<and>
   map_of (tasks relabelled) ([''a''] ! 0) = Some (snd (hd (tasks relabelled))) \<and>
   ''task_name'' \<in> {''flow_id'', ''task_name'', ''agent''} \<and>
   distinct (map fst (labels (snd (hd (tasks relabelled))))) \<and>
   map_of (labels (snd (hd (tasks relabelled)))) (PStr ''task_name'') = Some (PStr ''zzz'') \<and>
   py_path ([monolith_payload relabelled (snd (hd (tasks relabelled)))] ! 0)
     [''meta'', ''labels'', ''task_name''] = Some (PStr ''zzz'')"
proof -
  let ?t = "snd (hd (tasks relabelled))"
  have h1: "topological_order relabelled = Inr [''a'']" by code_simp
  have h2: "ir_to_monolith_tasks relabelled = Inr [monolith_payload relabelled ?t]" by code_simp
  have h3: "(0::nat) < length [''a'']" by simp
  have h4: "map_of (tasks relabelled) ([''a''] ! 0) = Some ?t" by (simp add: relabelled_def)
  have h5: "''task_name'' \<in> {''flow_id'', ''task_name'', ''agent''}" by simp
  have h6: "distinct (map fst (labels ?t))" by (simp add: relabelled_def)
  have h7: "map_of (labels ?t) (PStr ''task_name'') = Some (PStr ''zzz'')"
    by (simp add: relabelled_def)
  from own_labels_take_precedence [OF h1 h2 h3 h4 h5 h6 h7] h1 h2 h3 h4 h5 h6 h7
  show ?thesis by simp
qed

lemma relax_cong:
  "map_of i1 = map_of i2 \<Longrightarrow>
   rel_sum (=) (\<lambda>a b. map_of (fst a) = map_of (fst b) \<and> snd a = snd b)
     (relax xs i1 q) (relax xs i2 q)"
proof (induction xs arbitrary: i1 i2 q)
  case Nil
  then show ?case by simp
next
  case (Cons x xs)
  show ?case
  proof (cases "map_of i1 x")
    case None
    with Cons.prems show ?thesis by simp
  next
    case (Some d)
    have "map_of (AList.update x (d - 1) i1) = map_of (AList.update x (d - 1) i2)"
      using Cons.prems by (simp add: update_conv')
    from Cons.IH [OF this] Some Cons.prems show ?thesis by simp
  qed
qed

lemma kahn_loop_cong:
  "map_of i1 = map_of i2 \<Longrightarrow> kahn_loop adj i1 q ord = kahn_loop adj i2 q ord"
proof (induction adj i1 q ord arbitrary: i2 rule: kahn_loop.induct)
  case (1 adj in_degree order)
  then show ?case by simp
next
  case (2 adj in_degree node queue order)
  let ?xs = "sort (adj_get adj node)"
  from relax_cong [OF "2.prems", of ?xs queue]
  have rel: "rel_sum (=) (\<lambda>a b. map_of (fst a) = map_of (fst b) \<and> snd a = snd b)
               (relax ?xs in_degree queue) (relax ?xs i2 queue)" .
  show ?case
  proof (cases "relax ?xs in_degree queue")
    case (Inl e)
    with rel have "relax ?xs i2 queue = Inl e" by (cases "relax ?xs i2 queue") auto
    with Inl show ?thesis by simp
  next
    case (Inr r)
    obtain ind' q' where r: "r = (ind', q')" by (cases r)
    from rel Inr r obtain ind2 where r2: "relax ?xs i2 queue = Inr (ind2, q')"
      and m: "map_of ind' = map_of ind2"
      by (cases "relax ?xs i2 queue") auto
    from "2.IH" [OF Inr [unfolded r] refl m] Inr r r2 show ?thesis by simp
  qed
qed

lemma build_graph_cong:
  "map_of i1 = map_of i2 \<Longrightarrow>
   rel_sum (=) (\<lambda>a b. fst a = fst b \<and> map_of (snd a) = map_of (snd b))
     (build_graph es adj i1) (build_graph es adj i2)"
proof (induction es arbitrary: adj i1 i2)
  case Nil
  then show ?case by simp
next
  case (Cons e es)
  show ?case
  proof (cases "map_of i1 (target e)")
    case None
    with Cons.prems show ?thesis by simp
  next
    case (Some d)
    have "map_of (AList.update (target e) (d + 1) i1) = map_of (AList.update (target e) (d + 1) i2)"
      using Cons.prems by (simp add: update_conv')
    from Cons.IH [OF this] Some Cons.prems show ?thesis by (simp add: Let_def)
  qed
qed

lemma build_graph_keys:
  "build_graph es adj ind = Inr (adj', ind') \<Longrightarrow> map fst ind' = map fst ind"
proof (induction es arbitrary: adj ind)
  case Nil
  then show ?case by simp
next
  case (Cons e es)
  from Cons.prems obtain d where d: "map_of ind (target e) = Some d"
    by (auto simp: Let_def split: option.splits)
  then have "target e \<in> fst ` set ind" by (force dest: map_of_SomeD)
  then have k: "map fst (AList.update (target e) (d + 1) ind) = map fst ind"
    by (simp add: update_keys)
  from Cons.prems d have "build_graph es
      (AList.update (source e) (adj_get adj (source e) @ [target e]) adj)
      (AList.update (target e) (d + 1) ind) = Inr (adj', ind')"
    by (simp add: Let_def)
  from Cons.IH [OF this] k show ?case by simp
qed

lemma sort_eq_of_map_of_eq:
  assumes "distinct (map fst (xs :: (string \<times> int) list))" "distinct (map fst ys)"
    and "map_of xs = map_of ys"
  shows "sort xs = sort ys"
proof -
  from assms have "set xs = set ys" by (simp add: map_of_inject_set)
  moreover from assms(1,2) have "distinct xs" "distinct ys" by (auto simp: distinct_map)
  ultimately have "mset xs = mset ys" by (simp only: set_eq_iff_mset_eq_distinct)
  then show ?thesis by (metis properties_for_sort mset_sort sorted_sort)
qed

lemma topological_order_same:
  assumes "same_flow f g"
  shows "topological_order f = topological_order g"
proof -
  let ?i1 = "map (\<lambda>n. (n, 0::int)) (map fst (tasks f))"
  let ?i2 = "map (\<lambda>n. (n, 0::int)) (map fst (tasks g))"
  from assms have df: "distinct (map fst (tasks f))" and dg: "distinct (map fst (tasks g))"
    and mo: "map_of (tasks f) = map_of (tasks g)" and ed: "edges f = edges g"
    by (simp_all add: same_flow_def)
  from mo have "dom (map_of (tasks f)) = dom (map_of (tasks g))" by simp
  then have keys: "set (map fst (tasks f)) = set (map fst (tasks g))"
    by (simp add: dom_map_of_conv_image_fst)
  have d1: "distinct (map fst ?i1)" and d2: "distinct (map fst ?i2)"
    using df dg by (simp_all add: comp_def)
  have "set ?i1 = set ?i2" using keys by auto
  with d1 d2 have m0: "map_of ?i1 = map_of ?i2" by (simp add: map_of_inject_set)
  from build_graph_cong [OF m0, of "edges f" "[]"]
  have rel: "rel_sum (=) (\<lambda>a b. fst a = fst b \<and> map_of (snd a) = map_of (snd b))
               (build_graph (edges f) [] ?i1) (build_graph (edges f) [] ?i2)" .
  show ?thesis
  proof (cases "build_graph (edges f) [] ?i1")
    case (Inl e)
    with rel have "build_graph (edges f) [] ?i2 = Inl e"
      by (cases "build_graph (edges f) [] ?i2") auto
    with Inl ed show ?thesis by (simp add: topological_order_def)
  next
    case (Inr r)
    obtain adj ind1 where r: "r = (adj, ind1)" by (cases r)
    from rel Inr r obtain ind2 where b2: "build_graph (edges f) [] ?i2 = Inr (adj, ind2)"
      and m: "map_of ind1 = map_of ind2"
      by (cases "build_graph (edges f) [] ?i2") auto
    from build_graph_keys [OF Inr [unfolded r]] d1 have k1: "distinct (map fst ind1)" by simp
    from build_graph_keys [OF b2] d2 have k2: "distinct (map fst ind2)" by simp
    from sort_eq_of_map_of_eq [OF k1 k2 m] have s: "sort ind1 = sort ind2" .
    from Inr r b2 ed s kahn_loop_cong [OF m] show ?thesis
      by (simp add: topological_order_def)
  qed
qed

lemma monolith_loop_same:
  assumes "same_flow f g"
  shows "monolith_loop f ns acc = monolith_loop g ns acc"
proof (induction ns arbitrary: acc)
  case Nil
  then show ?case by simp
next
  case (Cons n ns)
  from assms have "map_of (tasks f) n = map_of (tasks g) n"
    and "\<And>t. monolith_payload f t = monolith_payload g t"
    by (simp_all add: same_flow_def monolith_payload_def monolith_labels_def)
  with Cons.IH show ?case by (simp split: option.splits)
qed

lemma waterfall_tasks_same:
  assumes "same_flow f g"
  shows "waterfall_tasks f ns = waterfall_tasks g ns"
proof (induction ns)
  case Nil
  then show ?case by simp
next
  case (Cons n ns)
  from assms have "map_of (tasks f) n = map_of (tasks g) n" by (simp add: same_flow_def)
  with Cons.IH show ?case by (simp split: option.splits)
qed

text \<open>
  Claim C8. Each projection and the orderer is a function of its argument, so two
  invocations on one flow agree. Beyond that, the result depends on the value of the flow
  only: two flows with equal fields whose task dictionaries hold the same entries, in
  whatever insertion order, give the same order and the same two artifacts (the same
  exception when the orderer fails).
\<close>

theorem projections_deterministic:
  assumes "same_flow f g"
  shows "topological_order f = topological_order g
       \<and> ir_to_monolith_tasks f = ir_to_monolith_tasks g
       \<and> ir_to_waterfall_spec f = ir_to_waterfall_spec g"
proof -
  note t = topological_order_same [OF assms]
  have "ir_to_monolith_tasks f = ir_to_monolith_tasks g"
    by (simp add: ir_to_monolith_tasks_def t monolith_loop_same [OF assms] split: sum.splits)
  moreover have "ir_to_waterfall_spec f = ir_to_waterfall_spec g"
    using assms
    by (simp add: ir_to_waterfall_spec_def t waterfall_tasks_same [OF assms] same_flow_def
        split: sum.splits)
  ultimately show ?thesis using t by simp
qed

theorem projections_deterministic_witness:
  "same_flow hello_world hello_world_swapped
   \<and> topological_order hello_world = topological_order hello_world_swapped
   \<and> ir_to_monolith_tasks hello_world = ir_to_monolith_tasks hello_world_swapped
   \<and> ir_to_waterfall_spec hello_world = ir_to_waterfall_spec hello_world_swapped"
proof -
  have s: "same_flow hello_world hello_world_swapped"
    by (simp add: same_flow_def hello_world_swapped_def hello_world_def fun_eq_iff)
  from projections_deterministic [OF s] s show ?thesis by simp
qed

section \<open>Correctness of the validator\<close>

lemma closed_rtrancl:
  assumes "(s, y) \<in> R\<^sup>*" "s \<in> S" "R `` S \<subseteq> S"
  shows "y \<in> S"
  using assms by (induction rule: rtrancl_induct) auto

lemma dfs_inv_insert:
  assumes inv: "dfs_inv g (insert n visiting) v"
    and ts: "map_of g n = Some ts" and sub: "set ts \<subseteq> v" and nv: "n \<notin> visiting"
  shows "dfs_inv g visiting (insert n v)"
proof -
  let ?E = "graph_rel g"
  from inv have cl: "?E `` v \<subseteq> v" and dj: "v \<inter> insert n visiting = {}"
    and ac: "\<forall>x\<in>v. (x, x) \<notin> ?E\<^sup>+"
    by (simp_all add: dfs_inv_def)
  have succ: "?E `` {n} \<subseteq> v" using ts sub by (auto simp: graph_rel_def)
  have c1: "?E `` insert n v \<subseteq> insert n v" using cl succ by auto
  have c2: "insert n v \<inter> visiting = {}" using dj nv by auto
  have "(n, n) \<notin> ?E\<^sup>+"
  proof
    assume "(n, n) \<in> ?E\<^sup>+"
    then obtain s where "(n, s) \<in> ?E" "(s, n) \<in> ?E\<^sup>*" by (auto dest: tranclD)
    with succ cl have "n \<in> v" by (auto intro: closed_rtrancl)
    with dj show False by auto
  qed
  with ac have c3: "\<forall>x\<in>insert n v. (x, x) \<notin> ?E\<^sup>+" by simp
  from c1 c2 c3 show ?thesis by (simp add: dfs_inv_def)
qed

lemma dfs_sound_aux:
  "set_order_ok lib \<Longrightarrow> dfs lib g visiting visited depth n = Inr v' \<Longrightarrow>
   dfs_inv g visiting visited \<Longrightarrow>
     dfs_inv g visiting v' \<and> visited \<subseteq> v' \<and> n \<in> v'"
  "set_order_ok lib \<Longrightarrow> dfs_all lib g visiting visited depth ns = Inr v' \<Longrightarrow>
   dfs_inv g visiting visited \<Longrightarrow>
     dfs_inv g visiting v' \<and> visited \<subseteq> v' \<and> set ns \<subseteq> v'"
proof (induction lib g visiting visited depth n and lib g visiting visited depth ns
    arbitrary: v' and v' rule: dfs_dfs_all.induct)
  case (1 lib graph visiting visited depth node)
  from "1.prems"(2) have d: "depth \<noteq> 0" and nv: "node \<notin> visiting"
    by (auto split: if_splits)
  show ?case
  proof (cases "node \<in> visited")
    case True
    with "1.prems" d nv show ?thesis by simp
  next
    case False
    with "1.prems"(2) d nv obtain ts v'' where ts: "map_of graph node = Some ts"
      and r: "dfs_all lib graph (insert node visiting) visited (depth - 1) (set_order lib ts)
                = Inr v''"
      and v': "v' = insert node v''"
      by (auto split: option.splits sum.splits)
    from "1.prems"(3) False have "dfs_inv graph (insert node visiting) visited"
      by (auto simp: dfs_inv_def)
    from "1.IH" [OF d nv False ts "1.prems"(1) r this]
    have i: "dfs_inv graph (insert node visiting) v''" and s: "visited \<subseteq> v''"
      and t: "set (set_order lib ts) \<subseteq> v''" by simp_all
    from t "1.prems"(1) have "set ts \<subseteq> v''" by (simp add: set_order_ok_def)
    from dfs_inv_insert [OF i ts this nv] s v' show ?thesis by auto
  qed
next
  case (2 lib graph visiting visited depth)
  then show ?case by simp
next
  case (3 lib graph visiting visited depth nxt rest)
  from "3.prems"(2) obtain b where b: "dfs lib graph visiting visited depth nxt = Inr b"
    and r: "dfs_all lib graph visiting b depth rest = Inr v'"
    by (auto split: sum.splits)
  from "3.IH"(1) [OF "3.prems"(1) b "3.prems"(3)]
  have i: "dfs_inv graph visiting b" and s: "visited \<subseteq> b" and n: "nxt \<in> b" by simp_all
  from "3.IH"(2) [OF b "3.prems"(1) r i] s n show ?case by auto
qed

text \<open>
  With a frame for every key of the graph that is not on the path, and one more, a
  traversal that fails has found a cycle.
\<close>

lemma dfs_cycle_aux:
  "set_order_ok lib \<Longrightarrow> keys_closed g \<Longrightarrow> dfs lib g visiting visited depth n = Inl err \<Longrightarrow>
   n \<in> dom (map_of g) \<Longrightarrow> \<forall>x\<in>visiting. (x, n) \<in> (graph_rel g)\<^sup>+ \<Longrightarrow>
   card (dom (map_of g) - visiting) < depth \<Longrightarrow>
     \<exists>m. err = ValidationError (CycleDetected m) \<and> (m, m) \<in> (graph_rel g)\<^sup>+"
  "set_order_ok lib \<Longrightarrow> keys_closed g \<Longrightarrow> dfs_all lib g visiting visited depth ns = Inl err \<Longrightarrow>
   set ns \<subseteq> dom (map_of g) \<Longrightarrow> \<forall>x\<in>visiting. \<forall>n\<in>set ns. (x, n) \<in> (graph_rel g)\<^sup>+ \<Longrightarrow>
   card (dom (map_of g) - visiting) < depth \<Longrightarrow>
     \<exists>m. err = ValidationError (CycleDetected m) \<and> (m, m) \<in> (graph_rel g)\<^sup>+"
proof (induction lib g visiting visited depth n and lib g visiting visited depth ns
    arbitrary: err and err rule: dfs_dfs_all.induct)
  case (1 lib graph visiting visited depth node)
  from "1.prems"(6) have d: "depth \<noteq> 0" by simp
  show ?case
  proof (cases "node \<in> visiting")
    case True
    with "1.prems"(3,5) d show ?thesis by auto
  next
    case False
    with "1.prems"(3) d have nd: "node \<notin> visited" by (auto split: if_splits)
    from "1.prems"(4) obtain ts where ts: "map_of graph node = Some ts" by auto
    with "1.prems"(3) False nd d
    have r: "dfs_all lib graph (insert node visiting) visited (depth - 1) (set_order lib ts)
               = Inl err"
      by (auto split: sum.splits)
    have so: "set (set_order lib ts) = set ts"
      using "1.prems"(1) by (simp add: set_order_ok_def)
    have sub: "set (set_order lib ts) \<subseteq> dom (map_of graph)"
      using so ts "1.prems"(2) by (auto simp: keys_closed_def)
    have step: "\<And>s. s \<in> set ts \<Longrightarrow> (node, s) \<in> graph_rel graph"
      using ts by (auto simp: graph_rel_def)
    have path: "\<forall>x\<in>insert node visiting. \<forall>s\<in>set (set_order lib ts).
                  (x, s) \<in> (graph_rel graph)\<^sup>+"
    proof (intro ballI)
      fix x s assume x: "x \<in> insert node visiting" and s: "s \<in> set (set_order lib ts)"
      from s so have e: "(node, s) \<in> graph_rel graph" using step by simp
      show "(x, s) \<in> (graph_rel graph)\<^sup>+"
      proof (cases "x = node")
        case True
        with e show ?thesis by auto
      next
        case False
        with x "1.prems"(5) have "(x, node) \<in> (graph_rel graph)\<^sup>+" by auto
        then show ?thesis using e by (rule trancl_into_trancl)
      qed
    qed
    have fin: "finite (dom (map_of graph) - visiting)" by (simp add: finite_dom_map_of)
    have "node \<in> dom (map_of graph) - visiting" using "1.prems"(4) False by simp
    with fin have "card (dom (map_of graph) - insert node visiting)
        < card (dom (map_of graph) - visiting)"
      by (intro psubset_card_mono) auto
    with "1.prems"(6) have room: "card (dom (map_of graph) - insert node visiting) < depth - 1"
      by simp
    from "1.IH" [OF d False nd ts "1.prems"(1,2) r sub path room] show ?thesis .
  qed
next
  case (2 lib graph visiting visited depth)
  then show ?case by simp
next
  case (3 lib graph visiting visited depth nxt rest)
  show ?case
  proof (cases "dfs lib graph visiting visited depth nxt")
    case (Inl e)
    with "3.prems"(3) have "dfs lib graph visiting visited depth nxt = Inl err" by simp
    from "3.IH"(1) [OF "3.prems"(1,2) this] "3.prems"(4,5,6) show ?thesis by simp
  next
    case (Inr b)
    with "3.prems"(3) have "dfs_all lib graph visiting b depth rest = Inl err" by simp
    from "3.IH"(2) [OF Inr "3.prems"(1,2) this] "3.prems"(4,5,6) show ?thesis by simp
  qed
qed

lemma graph_rel_update:
  "graph_rel (AList.update u ts g) = {(a, b). (a, b) \<in> graph_rel g \<and> a \<noteq> u} \<union> {u} \<times> set ts"
  by (auto simp: graph_rel_def update_conv' split: if_splits)

lemma dag_graph_spec:
  assumes "\<forall>e\<in>set es. source e \<in> fst ` set g"
  shows "\<exists>g'. dag_graph es g = Inr g' \<and> map fst g' = map fst g
           \<and> graph_rel g' = graph_rel g \<union> ir_edge_rel es"
  using assms
proof (induction es arbitrary: g)
  case Nil
  then show ?case by (simp add: ir_edge_rel_def)
next
  case (Cons e es)
  from Cons.prems have k: "source e \<in> fst ` set g" by simp
  then obtain ts where ts: "map_of g (source e) = Some ts"
    by (metis domD dom_map_of_conv_image_fst)
  let ?ts' = "if target e \<in> set ts then ts else ts @ [target e]"
  let ?g1 = "AList.update (source e) ?ts' g"
  have f1: "map fst ?g1 = map fst g" using k by (simp add: update_keys)
  then have "fst ` set ?g1 = fst ` set g" by (metis list.set_map)
  with Cons.prems have "\<forall>e\<in>set es. source e \<in> fst ` set ?g1" by simp
  from Cons.IH [OF this] obtain g' where r: "dag_graph es ?g1 = Inr g'"
    and f: "map fst g' = map fst ?g1"
    and gr: "graph_rel g' = graph_rel ?g1 \<union> ir_edge_rel es"
    by blast
  have "graph_rel ?g1 = graph_rel g \<union> {(source e, target e)}"
    using ts by (auto simp: graph_rel_update) (auto simp: graph_rel_def)
  with gr have "graph_rel g' = graph_rel g \<union> ir_edge_rel (e # es)"
    by (auto simp: ir_edge_rel_def)
  with r f f1 ts show ?case by simp
qed

lemma graph_rel_empty: "graph_rel (map (\<lambda>n. (n, [])) V) = {}"
proof -
  have "\<And>u ts. map_of (map (\<lambda>n. (n, [])) V) u = Some ts \<Longrightarrow> ts = []"
    by (induction V) (auto split: if_splits)
  then show ?thesis by (fastforce simp: graph_rel_def)
qed

lemma assert_dag_graph:
  assumes ends: "\<forall>e\<in>set es. source e \<in> fst ` set ts \<and> target e \<in> fst ` set ts"
  shows "\<exists>g. dag_graph es (map (\<lambda>n. (n, [])) (map fst ts)) = Inr g
           \<and> graph_rel g = ir_edge_rel es \<and> dom (map_of g) = fst ` set ts \<and> keys_closed g"
proof -
  let ?V = "map fst ts" and ?E = "ir_edge_rel es"
  let ?g0 = "map (\<lambda>n. (n, []::string list)) ?V"
  have k0: "fst ` set ?g0 = fst ` set ts" by force
  have "\<forall>e\<in>set es. source e \<in> fst ` set ?g0"
    unfolding k0 using ends by blast
  from dag_graph_spec [OF this] obtain g where g: "dag_graph es ?g0 = Inr g"
    and f: "map fst g = map fst ?g0" and gr0: "graph_rel g = graph_rel ?g0 \<union> ?E"
    by blast
  from gr0 have gr: "graph_rel g = ?E" by (simp only: graph_rel_empty Un_empty_left)
  from f have dom: "dom (map_of g) = fst ` set ts"
    by (metis dom_map_of_conv_image_fst k0 list.set_map)
  have kc: "keys_closed g"
    unfolding keys_closed_def
  proof (intro allI impI subsetI)
    fix u ts' v assume "map_of g u = Some ts'" "v \<in> set ts'"
    then have "(u, v) \<in> graph_rel g" by (auto simp: graph_rel_def)
    with gr ends dom show "v \<in> dom (map_of g)" by (auto simp: ir_edge_rel_def)
  qed
  from g gr dom kc show ?thesis by blast
qed

text \<open>When \<^verbatim>\<open>_assert_dag\<close> returns, the graph has no cycle.\<close>

lemma assert_dag_sound:
  assumes ok: "set_order_ok lib"
    and ends: "\<forall>e\<in>set es. source e \<in> fst ` set ts \<and> target e \<in> fst ` set ts"
    and r: "assert_dag lib ts es = Inr u"
  shows "acyclic (ir_edge_rel es)"
proof -
  let ?V = "map fst ts" and ?E = "ir_edge_rel es"
  from assert_dag_graph [OF ends] obtain g where
    g: "dag_graph es (map (\<lambda>n. (n, [])) ?V) = Inr g" and gr: "graph_rel g = ?E"
    by blast
  from r g obtain v where v: "dfs_all lib g {} {} (max_depth lib) ?V = Inr v"
    by (auto simp: assert_dag_def split: sum.splits)
  have "dfs_inv g {} {}" by (simp add: dfs_inv_def)
  from dfs_sound_aux(2) [OF ok v this]
  have inv: "dfs_inv g {} v" and all: "set ?V \<subseteq> v" by simp_all
  show ?thesis
    unfolding acyclic_def
  proof (intro allI notI)
    fix x assume x: "(x, x) \<in> ?E\<^sup>+"
    then obtain y where "(x, y) \<in> ?E" by (auto dest: tranclD)
    with ends have "x \<in> set ?V" by (auto simp: ir_edge_rel_def)
    with all inv gr x show False by (auto simp: dfs_inv_def)
  qed
qed

text \<open>
  With more frames than tasks, \<^verbatim>\<open>_assert_dag\<close> returns on a graph without a cycle and
  raises the cycle error, naming a node on a cycle, on a graph with one.
\<close>

lemma assert_dag_spec:
  assumes ok: "set_order_ok lib"
    and ends: "\<forall>e\<in>set es. source e \<in> fst ` set ts \<and> target e \<in> fst ` set ts"
    and room: "length ts < max_depth lib"
  shows "(acyclic (ir_edge_rel es) \<longrightarrow> assert_dag lib ts es = Inr ()) \<and>
         (\<not> acyclic (ir_edge_rel es) \<longrightarrow>
            (\<exists>m. assert_dag lib ts es = Inl (ValidationError (CycleDetected m))
                 \<and> (m, m) \<in> (ir_edge_rel es)\<^sup>+))"
proof -
  let ?V = "map fst ts" and ?E = "ir_edge_rel es"
  from assert_dag_graph [OF ends] obtain g where
    g: "dag_graph es (map (\<lambda>n. (n, [])) ?V) = Inr g" and gr: "graph_rel g = ?E"
    and dom: "dom (map_of g) = fst ` set ts" and kc: "keys_closed g"
    by blast
  have sub: "set ?V \<subseteq> dom (map_of g)" using dom by simp
  have "card (fst ` set ts) \<le> length ts"
    by (metis card_length list.set_map length_map)
  with room dom have depth: "card (dom (map_of g) - {}) < max_depth lib" by simp
  show ?thesis
  proof (cases "dfs_all lib g {} {} (max_depth lib) ?V")
    case (Inl err)
    from dfs_cycle_aux(2) [OF ok kc Inl sub _ depth] obtain m where
      m: "err = ValidationError (CycleDetected m)" "(m, m) \<in> ?E\<^sup>+"
      using gr by auto
    then have "\<not> acyclic ?E" by (auto simp: acyclic_def)
    moreover have "assert_dag lib ts es = Inl (ValidationError (CycleDetected m))"
      using g Inl m by (simp add: assert_dag_def)
    ultimately show ?thesis using m by auto
  next
    case (Inr v)
    then have "assert_dag lib ts es = Inr ()"
      using g by (simp add: assert_dag_def)
    with assert_dag_sound [OF ok ends this] show ?thesis by simp
  qed
qed

lemma py_int_results:
  "(\<exists>n. py_int lib v = Inr n) \<or> coercion_fails lib v \<or> py_int lib v = Inl OverflowError"
proof (cases v)
  case (PFloat f)
  then show ?thesis by (cases f) (simp_all add: coercion_fails_def)
qed (simp_all add: coercion_fails_def split: option.splits)

lemma int_field_fails:
  "coercion_fails lib (resource_value res key d) \<Longrightarrow>
   int_field lib res key d nm = Inl (ValidationError (NotAnInteger nm key (resource_value res key d)))"
  by (auto simp: int_field_def coercion_fails_def Let_def)

lemma int_field_Inr:
  "py_int lib (resource_value res key d) = Inr n \<Longrightarrow> int_field lib res key d nm = Inr n"
  by (simp add: int_field_def Let_def)

lemma find_append:
  "find P (xs @ ys) = (case find P xs of None \<Rightarrow> find P ys | Some x \<Rightarrow> Some x)"
  by (induction xs) auto

lemma update_fresh: "k \<notin> fst ` set al \<Longrightarrow> AList.update k v al = al @ [(k, v)]"
  by (induction al) auto

lemma upt_head: "[i..<i + Suc n] = i # [Suc i..<Suc i + n]"
  by (subst upt_rec) simp

lemma validate_tasks_spec:
  assumes "doc_tasks doc = pre @ ts"
    and "seen = set (map t_name pre)" and "map fst ir = map t_name pre"
    and "\<forall>t\<in>set ts. py_int lib (priority_value t) \<noteq> Inl OverflowError \<and>
                     py_int lib (timeout_value t) \<noteq> Inl OverflowError"
  shows "case find (violates lib doc)
                (concat (map task_rules [length pre..<length pre + length ts])) of
           None \<Rightarrow> validate_tasks lib ts seen ir =
                    Inr (ir @ map (\<lambda>t. (t_name t, ir_task_of lib t)) ts)
         | Some r \<Rightarrow> \<exists>e. validate_tasks lib ts seen ir = Inl (ValidationError e) \<and> reports doc r e"
  using assms
proof (induction ts arbitrary: pre seen ir)
  case Nil
  then show ?case by simp
next
  case (Cons t rest)
  let ?i = "length pre"
  let ?tail = "concat (map task_rules [Suc ?i..<Suc ?i + length rest])"
  have nth: "doc_tasks doc ! ?i = t" and tk: "take ?i (doc_tasks doc) = pre"
    using Cons.prems(1) by simp_all
  have rules: "concat (map task_rules [?i..<?i + length (t # rest)]) = task_rules ?i @ ?tail"
    by (simp only: length_Cons upt_head list.map concat.simps)
  let ?f = "find (violates lib doc) (concat (map task_rules [?i..<?i + length (t # rest)]))"
  have v1: "violates lib doc (R_task_name ?i) \<longleftrightarrow> strip (t_name t) = []"
    and v2: "violates lib doc (R_duplicate_name ?i) \<longleftrightarrow> t_name t \<in> seen"
    and v3: "violates lib doc (R_agent ?i) \<longleftrightarrow> strip (t_agent t) = []"
    and v4: "violates lib doc (R_priority_int ?i) \<longleftrightarrow> coercion_fails lib (priority_value t)"
    and v5: "violates lib doc (R_timeout_int ?i) \<longleftrightarrow> coercion_fails lib (timeout_value t)"
    and v6: "violates lib doc (R_timeout_positive ?i) \<longleftrightarrow>
               (case py_int lib (timeout_value t) of Inl _ \<Rightarrow> False | Inr n \<Rightarrow> n \<le> 0)"
    using nth tk Cons.prems(2) by simp_all
  have r1: "reports doc (R_task_name ?i) TaskNameRequired"
    and r2: "reports doc (R_duplicate_name ?i) (DuplicateTaskName (t_name t))"
    and r3: "reports doc (R_agent ?i) (AgentRequired (t_name t))"
    and r4: "reports doc (R_priority_int ?i) (NotAnInteger (t_name t) ''priority'' (priority_value t))"
    and r5: "reports doc (R_timeout_int ?i) (NotAnInteger (t_name t) ''timeout_ms'' (timeout_value t))"
    and r6: "reports doc (R_timeout_positive ?i) (TimeoutNotPositive (t_name t))"
    using nth by simp_all
  from Cons.prems(4) have nov: "py_int lib (priority_value t) \<noteq> Inl OverflowError"
    "py_int lib (timeout_value t) \<noteq> Inl OverflowError" by simp_all
  consider (name) "strip (t_name t) = []"
    | (dup) "strip (t_name t) \<noteq> []" "t_name t \<in> seen"
    | (agent) "strip (t_name t) \<noteq> []" "t_name t \<notin> seen" "strip (t_agent t) = []"
    | (rest) "strip (t_name t) \<noteq> []" "t_name t \<notin> seen" "strip (t_agent t) \<noteq> []"
    by blast
  then show ?case
  proof cases
    case name
    then have "find (violates lib doc) (task_rules ?i) = Some (R_task_name ?i)"
      by (simp add: task_rules_def v1 del: violates.simps)
    then have "?f = Some (R_task_name ?i)"
      by (simp only: rules find_append option.case)
    moreover have "validate_tasks lib (t # rest) seen ir = Inl (ValidationError TaskNameRequired)"
      using name by simp
    ultimately show ?thesis using r1 by simp
  next
    case dup
    then have "find (violates lib doc) (task_rules ?i) = Some (R_duplicate_name ?i)"
      by (simp add: task_rules_def v1 v2 del: violates.simps)
    then have "?f = Some (R_duplicate_name ?i)"
      by (simp only: rules find_append option.case)
    moreover have "validate_tasks lib (t # rest) seen ir =
        Inl (ValidationError (DuplicateTaskName (t_name t)))"
      using dup by simp
    ultimately show ?thesis using r2 by simp
  next
    case agent
    then have "find (violates lib doc) (task_rules ?i) = Some (R_agent ?i)"
      by (simp add: task_rules_def v1 v2 v3 del: violates.simps)
    then have "?f = Some (R_agent ?i)"
      by (simp only: rules find_append option.case)
    moreover have "validate_tasks lib (t # rest) seen ir =
        Inl (ValidationError (AgentRequired (t_name t)))"
      using agent by simp
    ultimately show ?thesis using r3 by simp
  next
    case rest
    note pass3 = rest
    show ?thesis
    proof (cases "coercion_fails lib (priority_value t)")
      case True
      then have "find (violates lib doc) (task_rules ?i) = Some (R_priority_int ?i)"
        using pass3 by (simp add: task_rules_def v1 v2 v3 v4 del: violates.simps)
      then have "?f = Some (R_priority_int ?i)"
        by (simp only: rules find_append option.case)
      moreover from True have "int_field lib (t_resources t) ''priority'' DEFAULT_PRIORITY (t_name t)
          = Inl (ValidationError (NotAnInteger (t_name t) ''priority'' (priority_value t)))"
        unfolding priority_value_def by (rule int_field_fails)
      then have "validate_tasks lib (t # rest) seen ir =
          Inl (ValidationError (NotAnInteger (t_name t) ''priority'' (priority_value t)))"
        using pass3 by simp
      ultimately show ?thesis using r4 by simp
    next
      case pf: False
      with nov(1) py_int_results [of lib "priority_value t"]
      obtain p where p: "py_int lib (priority_value t) = Inr p" by blast
      then have ip: "int_field lib (t_resources t) ''priority'' DEFAULT_PRIORITY (t_name t) = Inr p"
        unfolding priority_value_def by (rule int_field_Inr)
      show ?thesis
      proof (cases "coercion_fails lib (timeout_value t)")
        case True
        then have "find (violates lib doc) (task_rules ?i) = Some (R_timeout_int ?i)"
          using pass3 pf by (simp add: task_rules_def v1 v2 v3 v4 v5 del: violates.simps)
        then have "?f = Some (R_timeout_int ?i)"
          by (simp only: rules find_append option.case)
        moreover from True have "int_field lib (t_resources t) ''timeout_ms'' DEFAULT_TIMEOUT_MS (t_name t)
            = Inl (ValidationError (NotAnInteger (t_name t) ''timeout_ms'' (timeout_value t)))"
          unfolding timeout_value_def by (rule int_field_fails)
        then have "validate_tasks lib (t # rest) seen ir =
            Inl (ValidationError (NotAnInteger (t_name t) ''timeout_ms'' (timeout_value t)))"
          using pass3 ip by simp
        ultimately show ?thesis using r5 by simp
      next
        case tf: False
        with nov(2) py_int_results [of lib "timeout_value t"]
        obtain n where n: "py_int lib (timeout_value t) = Inr n" by blast
        then have it: "int_field lib (t_resources t) ''timeout_ms'' DEFAULT_TIMEOUT_MS (t_name t) = Inr n"
          unfolding timeout_value_def by (rule int_field_Inr)
        show ?thesis
        proof (cases "n \<le> 0")
          case True
          then have "find (violates lib doc) (task_rules ?i) = Some (R_timeout_positive ?i)"
            using pass3 pf tf n
            by (simp add: task_rules_def v1 v2 v3 v4 v5 v6 del: violates.simps)
          then have "?f = Some (R_timeout_positive ?i)"
            by (simp only: rules find_append option.case)
          moreover have "validate_tasks lib (t # rest) seen ir =
              Inl (ValidationError (TimeoutNotPositive (t_name t)))"
            using pass3 ip it True by simp
          ultimately show ?thesis using r6 by simp
        next
          case False
          have head: "find (violates lib doc) (task_rules ?i) = None"
            using pass3 pf tf n False by (simp add: task_rules_def v1 v2 v3 v4 v5 v6 del: violates.simps)
          have f: "?f = find (violates lib doc) ?tail"
            by (simp only: rules find_append head option.case)
          have fresh: "t_name t \<notin> fst ` set ir"
            using pass3(2) Cons.prems(2,3) by (metis list.set_map)
          have task: "\<lparr>name = t_name t, agent = t_agent t, input = t_input t, priority = p,
                       timeout_ms = n, labels = t_labels t\<rparr> = ir_task_of lib t"
            by (simp add: ir_task_of_def p n)
          have step: "validate_tasks lib (t # rest) seen ir =
              validate_tasks lib rest (insert (t_name t) seen) (ir @ [(t_name t, ir_task_of lib t)])"
            using pass3 ip it False by (simp add: task update_fresh [OF fresh])
          have a1: "doc_tasks doc = (pre @ [t]) @ rest" using Cons.prems(1) by simp
          have a2: "insert (t_name t) seen = set (map t_name (pre @ [t]))"
            using Cons.prems(2) by simp
          have a3: "map fst (ir @ [(t_name t, ir_task_of lib t)]) = map t_name (pre @ [t])"
            using Cons.prems(3) by simp
          have a4: "\<forall>t\<in>set rest. py_int lib (priority_value t) \<noteq> Inl OverflowError \<and>
                     py_int lib (timeout_value t) \<noteq> Inl OverflowError"
            using Cons.prems(4) by simp
          have len: "length (pre @ [t]) = Suc ?i" by simp
          have res: "(ir @ [(t_name t, ir_task_of lib t)]) @ map (\<lambda>t. (t_name t, ir_task_of lib t)) rest
              = ir @ map (\<lambda>t. (t_name t, ir_task_of lib t)) (t # rest)" by simp
          from Cons.IH [OF a1 a2 a3 a4] show ?thesis
            unfolding f step len res .
        qed
      qed
    qed
  qed
qed

lemma validate_edges_spec:
  assumes "doc_edges doc = pre @ es"
    and "fst ` set ir = set (map t_name (doc_tasks doc))"
  shows "case find (violates lib doc)
                (concat (map edge_rules [length pre..<length pre + length es])) of
           None \<Rightarrow> validate_edges ir es acc = Inr (acc @ map ir_edge_of es)
         | Some r \<Rightarrow> \<exists>e. validate_edges ir es acc = Inl (ValidationError e) \<and> reports doc r e"
  using assms(1)
proof (induction es arbitrary: pre acc)
  case Nil
  then show ?case by simp
next
  case (Cons x rest)
  let ?j = "length pre"
  let ?tail = "concat (map edge_rules [Suc ?j..<Suc ?j + length rest])"
  have nth: "doc_edges doc ! ?j = x" using Cons.prems by simp
  have rules: "concat (map edge_rules [?j..<?j + length (x # rest)]) = edge_rules ?j @ ?tail"
    by (simp only: length_Cons upt_head list.map concat.simps)
  have key: "\<And>k. map_of ir k = None \<longleftrightarrow> k \<notin> set (map t_name (doc_tasks doc))"
    using assms(2) by (simp add: map_of_eq_None_iff)
  have v1: "violates lib doc (R_edge_source ?j) \<longleftrightarrow> map_of ir (e_source x) = None"
    and v2: "violates lib doc (R_edge_target ?j) \<longleftrightarrow> map_of ir (e_target x) = None"
    using nth key by simp_all
  have r1: "reports doc (R_edge_source ?j) (UnknownEdgeSource (e_source x))"
    and r2: "reports doc (R_edge_target ?j) (UnknownEdgeTarget (e_target x))"
    using nth by simp_all
  let ?f = "find (violates lib doc) (concat (map edge_rules [?j..<?j + length (x # rest)]))"
  consider (src) "map_of ir (e_source x) = None"
    | (tgt) "map_of ir (e_source x) \<noteq> None" "map_of ir (e_target x) = None"
    | (ok) "map_of ir (e_source x) \<noteq> None" "map_of ir (e_target x) \<noteq> None"
    by blast
  then show ?case
  proof cases
    case src
    then have "find (violates lib doc) (edge_rules ?j) = Some (R_edge_source ?j)"
      by (simp add: edge_rules_def v1 del: violates.simps)
    then have "?f = Some (R_edge_source ?j)"
      by (simp only: rules find_append option.case)
    moreover have "validate_edges ir (x # rest) acc =
        Inl (ValidationError (UnknownEdgeSource (e_source x)))"
      using src by simp
    ultimately show ?thesis using r1 by simp
  next
    case tgt
    then have "find (violates lib doc) (edge_rules ?j) = Some (R_edge_target ?j)"
      by (simp add: edge_rules_def v1 v2 del: violates.simps)
    then have "?f = Some (R_edge_target ?j)"
      by (simp only: rules find_append option.case)
    moreover have "validate_edges ir (x # rest) acc =
        Inl (ValidationError (UnknownEdgeTarget (e_target x)))"
      using tgt by simp
    ultimately show ?thesis using r2 by simp
  next
    case ok
    then have head: "find (violates lib doc) (edge_rules ?j) = None"
      by (simp add: edge_rules_def v1 v2 del: violates.simps)
    have f: "?f = find (violates lib doc) ?tail"
      by (simp only: rules find_append head option.case)
    have step: "validate_edges ir (x # rest) acc = validate_edges ir rest (acc @ [ir_edge_of x])"
      using ok by (auto simp: ir_edge_of_def)
    have len: "length (pre @ [x]) = Suc ?j" by simp
    have res: "(acc @ [ir_edge_of x]) @ map ir_edge_of rest = acc @ map ir_edge_of (x # rest)"
      by simp
    have "doc_edges doc = (pre @ [x]) @ rest" using Cons.prems by simp
    from Cons.IH [OF this, of "acc @ [ir_edge_of x]"] show ?thesis
      unfolding f step len res .
  qed
qed

lemma ir_edge_rel_doc: "ir_edge_rel (map ir_edge_of (doc_edges doc)) = doc_edge_rel doc"
  by (force simp: ir_edge_rel_def doc_edge_rel_def ir_edge_of_def)

lemma edge_rules_pass:
  assumes "find (violates lib doc) (concat (map edge_rules [0..<length (doc_edges doc)])) = None"
    and "x \<in> set (doc_edges doc)"
  shows "e_source x \<in> set (map t_name (doc_tasks doc))"
    and "e_target x \<in> set (map t_name (doc_tasks doc))"
proof -
  from assms(2) obtain j where j: "j < length (doc_edges doc)" "doc_edges doc ! j = x"
    by (auto simp: in_set_conv_nth)
  then have "R_edge_source j \<in> set (concat (map edge_rules [0..<length (doc_edges doc)]))"
    "R_edge_target j \<in> set (concat (map edge_rules [0..<length (doc_edges doc)]))"
    by (auto simp: edge_rules_def)
  with assms(1) have "\<not> violates lib doc (R_edge_source j)" "\<not> violates lib doc (R_edge_target j)"
    by (auto simp only: find_None_iff)
  with j show "e_source x \<in> set (map t_name (doc_tasks doc))"
    and "e_target x \<in> set (map t_name (doc_tasks doc))"
    by simp_all
qed

text \<open>
  Up to the cycle check the validator reports the first violated rule of
  \<open>earlier_rules\<close>; when none is violated its result is that of \<^verbatim>\<open>_assert_dag\<close> on the
  normalised tasks and edges, whose endpoints are known.
\<close>

lemma validate_earlier:
  assumes nov: "no_overflow lib doc"
  shows "case find (violates lib doc) (earlier_rules doc) of
           None \<Rightarrow>
             (\<forall>e\<in>set (map ir_edge_of (doc_edges doc)).
                 source e \<in> fst ` set (map (\<lambda>t. (t_name t, ir_task_of lib t)) (doc_tasks doc)) \<and>
                 target e \<in> fst ` set (map (\<lambda>t. (t_name t, ir_task_of lib t)) (doc_tasks doc))) \<and>
             validate_and_normalize lib doc =
               (case assert_dag lib (map (\<lambda>t. (t_name t, ir_task_of lib t)) (doc_tasks doc))
                       (map ir_edge_of (doc_edges doc)) of
                  Inl e \<Rightarrow> Inl e | Inr u \<Rightarrow> Inr (ir_flow_of lib doc))
         | Some r \<Rightarrow> \<exists>e. validate_and_normalize lib doc = Inl (ValidationError e) \<and> reports doc r e"
proof -
  let ?P = "violates lib doc"
  let ?T = "concat (map task_rules [0..<length (doc_tasks doc)])"
  let ?E = "concat (map edge_rules [0..<length (doc_edges doc)])"
  let ?irT = "map (\<lambda>t. (t_name t, ir_task_of lib t)) (doc_tasks doc)"
  let ?irE = "map ir_edge_of (doc_edges doc)"
  have order: "earlier_rules doc = [R_flow_id, R_tenant, R_no_tasks] @ ?T @ ?E @ [R_risk_level]"
    by (simp add: earlier_rules_def)
  have tspec: "case find ?P ?T of
           None \<Rightarrow> validate_tasks lib (doc_tasks doc) {} [] = Inr ?irT
         | Some r \<Rightarrow> \<exists>e. validate_tasks lib (doc_tasks doc) {} [] = Inl (ValidationError e)
                         \<and> reports doc r e"
    using validate_tasks_spec [where doc = doc and pre = "[]" and ts = "doc_tasks doc"
        and seen = "{}" and ir = "[]" and lib = lib] nov
    by (simp add: no_overflow_def cong: option.case_cong)
  have espec: "case find ?P ?E of
           None \<Rightarrow> validate_edges ?irT (doc_edges doc) [] = Inr ?irE
         | Some r \<Rightarrow> \<exists>e. validate_edges ?irT (doc_edges doc) [] = Inl (ValidationError e)
                         \<and> reports doc r e"
    using validate_edges_spec [where doc = doc and pre = "[]" and es = "doc_edges doc"
        and ir = ?irT and lib = lib and acc = "[]"]
    by (simp add: image_image comp_def cong: option.case_cong)
  consider (fid) "strip (doc_id doc) = []"
    | (ten) "strip (doc_id doc) \<noteq> []" "strip (doc_tenant doc) = []"
    | (emp) "strip (doc_id doc) \<noteq> []" "strip (doc_tenant doc) \<noteq> []" "doc_tasks doc = []"
    | (go) "strip (doc_id doc) \<noteq> []" "strip (doc_tenant doc) \<noteq> []" "doc_tasks doc \<noteq> []"
    by blast
  then show ?thesis
  proof cases
    case fid
    then have "find ?P (earlier_rules doc) = Some R_flow_id" unfolding order by simp
    moreover have "validate_and_normalize lib doc = Inl (ValidationError FlowIdRequired)"
      using fid by (simp add: validate_and_normalize_def)
    ultimately show ?thesis by simp
  next
    case ten
    then have "find ?P (earlier_rules doc) = Some R_tenant" unfolding order by simp
    moreover have "validate_and_normalize lib doc = Inl (ValidationError TenantRequired)"
      using ten by (simp add: validate_and_normalize_def)
    ultimately show ?thesis by simp
  next
    case emp
    then have "find ?P (earlier_rules doc) = Some R_no_tasks" unfolding order by simp
    moreover have "validate_and_normalize lib doc = Inl (ValidationError NoTasks)"
      using emp by (simp add: validate_and_normalize_def)
    ultimately show ?thesis by simp
  next
    case go
    have head: "find ?P [R_flow_id, R_tenant, R_no_tasks] = None" using go by simp
    have f1: "find ?P (earlier_rules doc) = find ?P (?T @ ?E @ [R_risk_level])"
      by (simp only: order find_append head option.case)
    show ?thesis
    proof (cases "find ?P ?T")
      case (Some r)
      with tspec obtain e where e: "validate_tasks lib (doc_tasks doc) {} [] = Inl (ValidationError e)"
        "reports doc r e" by auto
      have "find ?P (earlier_rules doc) = Some r"
        by (simp only: f1 find_append Some option.case)
      moreover have "validate_and_normalize lib doc = Inl (ValidationError e)"
        using go e(1) by (simp add: validate_and_normalize_def)
      ultimately show ?thesis using e(2) by simp
    next
      case tnone: None
      with tspec have vt: "validate_tasks lib (doc_tasks doc) {} [] = Inr ?irT" by simp
      have f2: "find ?P (earlier_rules doc) = find ?P (?E @ [R_risk_level])"
        by (simp only: f1 find_append tnone option.case)
      show ?thesis
      proof (cases "find ?P ?E")
        case (Some r)
        with espec obtain e where e: "validate_edges ?irT (doc_edges doc) [] = Inl (ValidationError e)"
          "reports doc r e" by auto
        have "find ?P (earlier_rules doc) = Some r"
          by (simp only: f2 find_append Some option.case)
        moreover have "validate_and_normalize lib doc = Inl (ValidationError e)"
          using go vt e(1) by (simp add: validate_and_normalize_def)
        ultimately show ?thesis using e(2) by simp
      next
        case enone: None
        with espec have ve: "validate_edges ?irT (doc_edges doc) [] = Inr ?irE" by simp
        have f3: "find ?P (earlier_rules doc) = find ?P [R_risk_level]"
          by (simp only: f2 find_append enone option.case)
        show ?thesis
        proof (cases "p_risk_level (doc_policy doc) \<in> VALID_RISK_LEVELS")
          case False
          then have "find ?P (earlier_rules doc) = Some R_risk_level" unfolding f3 by simp
          moreover have "validate_and_normalize lib doc =
              Inl (ValidationError (InvalidRiskLevel (p_risk_level (doc_policy doc))))"
            using go vt ve False by (simp add: validate_and_normalize_def)
          ultimately show ?thesis by simp
        next
          case True
          have ends: "\<forall>e\<in>set ?irE. source e \<in> fst ` set ?irT \<and> target e \<in> fst ` set ?irT"
          proof
            fix e assume "e \<in> set ?irE"
            then obtain x where x: "x \<in> set (doc_edges doc)" "e = ir_edge_of x" by auto
            from edge_rules_pass [OF enone x(1)] x(2)
            show "source e \<in> fst ` set ?irT \<and> target e \<in> fst ` set ?irT"
              by (simp add: ir_edge_of_def image_image)
          qed
          have none: "find ?P (earlier_rules doc) = None" unfolding f3 using True by simp
          have "validate_and_normalize lib doc =
               (case assert_dag lib ?irT ?irE of Inl e \<Rightarrow> Inl e | Inr u \<Rightarrow> Inr (ir_flow_of lib doc))"
            using go vt ve True
            by (simp add: validate_and_normalize_def ir_flow_of_def cong: sum.case_cong)
          with ends show ?thesis unfolding none by simp
        qed
      qed
    qed
  qed
qed

text \<open>
  With more frames than tasks the validator reports the first violated rule of
  \<open>rule_order\<close>, and normalises the document when no rule is violated.
\<close>

lemma validate_spec:
  assumes ok: "set_order_ok lib" and nov: "no_overflow lib doc"
    and room: "length (doc_tasks doc) < max_depth lib"
  shows "case find (violates lib doc) (rule_order doc) of
           None \<Rightarrow> validate_and_normalize lib doc = Inr (ir_flow_of lib doc)
         | Some r \<Rightarrow> \<exists>e. validate_and_normalize lib doc = Inl (ValidationError e) \<and> reports doc r e"
proof -
  let ?P = "violates lib doc"
  let ?irT = "map (\<lambda>t. (t_name t, ir_task_of lib t)) (doc_tasks doc)"
  let ?irE = "map ir_edge_of (doc_edges doc)"
  note pre = validate_earlier [OF nov]
  have order: "find ?P (rule_order doc) =
      (case find ?P (earlier_rules doc) of None \<Rightarrow> find ?P [R_cycle] | Some r \<Rightarrow> Some r)"
    by (simp only: rule_order_def find_append)
  show ?thesis
  proof (cases "find ?P (earlier_rules doc)")
    case (Some r)
    with pre order show ?thesis by simp
  next
    case None
    with pre have ends: "\<forall>e\<in>set ?irE. source e \<in> fst ` set ?irT \<and> target e \<in> fst ` set ?irT"
      and v: "validate_and_normalize lib doc =
               (case assert_dag lib ?irT ?irE of Inl e \<Rightarrow> Inl e | Inr u \<Rightarrow> Inr (ir_flow_of lib doc))"
      by simp_all
    from room have "length ?irT < max_depth lib" by simp
    note dag = assert_dag_spec [OF ok ends this, unfolded ir_edge_rel_doc]
    have f: "find ?P (rule_order doc) = find ?P [R_cycle]" unfolding order None by simp
    show ?thesis
    proof (cases "acyclic (doc_edge_rel doc)")
      case True
      with dag have "assert_dag lib ?irT ?irE = Inr ()" by simp
      with v have "validate_and_normalize lib doc = Inr (ir_flow_of lib doc)" by simp
      moreover have "find ?P (rule_order doc) = None" unfolding f using True by simp
      ultimately show ?thesis by simp
    next
      case False
      with dag obtain m where m: "assert_dag lib ?irT ?irE = Inl (ValidationError (CycleDetected m))"
        "(m, m) \<in> (doc_edge_rel doc)\<^sup>+" by auto
      with v have "validate_and_normalize lib doc = Inl (ValidationError (CycleDetected m))"
        by simp
      moreover have "find ?P (rule_order doc) = Some R_cycle" unfolding f using False by simp
      moreover have "reports doc R_cycle (CycleDetected m)" using m(2) by simp
      ultimately show ?thesis by auto
    qed
  qed
qed

lemma int_field_Inr_iff:
  "int_field lib res key d nm = Inr n \<longleftrightarrow> py_int lib (resource_value res key d) = Inr n"
proof (cases "py_int lib (resource_value res key d)")
  case (Inl e)
  then show ?thesis by (cases e) (simp_all add: int_field_def Let_def)
next
  case (Inr m)
  then show ?thesis by (simp add: int_field_def Let_def)
qed

lemma validate_tasks_no_overflow:
  "validate_tasks lib ts seen ir = Inr ir' \<Longrightarrow>
   \<forall>t\<in>set ts. py_int lib (priority_value t) \<noteq> Inl OverflowError \<and>
              py_int lib (timeout_value t) \<noteq> Inl OverflowError"
proof (induction ts arbitrary: seen ir)
  case Nil
  then show ?case by simp
next
  case (Cons t rest)
  from Cons.prems obtain p n where
    p: "int_field lib (t_resources t) ''priority'' DEFAULT_PRIORITY (t_name t) = Inr p"
    and n: "int_field lib (t_resources t) ''timeout_ms'' DEFAULT_TIMEOUT_MS (t_name t) = Inr n"
    and r: "validate_tasks lib rest (insert (t_name t) seen)
              (AList.update (t_name t)
                 \<lparr>name = t_name t, agent = t_agent t, input = t_input t, priority = p,
                  timeout_ms = n, labels = t_labels t\<rparr> ir) = Inr ir'"
    by (auto split: if_splits sum.splits)
  from p n have "py_int lib (priority_value t) = Inr p" "py_int lib (timeout_value t) = Inr n"
    by (simp_all add: int_field_Inr_iff priority_value_def timeout_value_def)
  with Cons.IH [OF r] show ?case by simp
qed

lemma validate_Inr_no_overflow:
  assumes "validate_and_normalize lib doc = Inr flow"
  shows "no_overflow lib doc"
proof -
  from assms obtain ir where "validate_tasks lib (doc_tasks doc) {} [] = Inr ir"
    by (auto simp: validate_and_normalize_def split: if_splits sum.splits)
  from validate_tasks_no_overflow [OF this] show ?thesis by (simp add: no_overflow_def)
qed

lemma distinct_if_no_earlier:
  "(\<And>i. i < length xs \<Longrightarrow> xs ! i \<notin> set (take i xs)) \<Longrightarrow> distinct xs"
proof (induction xs rule: rev_induct)
  case Nil
  then show ?case by simp
next
  case (snoc x xs)
  have "distinct xs"
  proof (rule snoc.IH)
    fix i assume i: "i < length xs"
    with snoc.prems [of i] show "xs ! i \<notin> set (take i xs)" by (simp add: nth_append)
  qed
  moreover from snoc.prems [of "length xs"] have "x \<notin> set xs" by simp
  ultimately show ?case by simp
qed

lemma rules_pass_valid:
  assumes pass: "\<forall>r\<in>set (rule_order doc). \<not> violates lib doc r"
    and nov: "no_overflow lib doc"
  shows "valid_IRFlow (ir_flow_of lib doc)"
proof -
  let ?ts = "doc_tasks doc"
  have order: "set (rule_order doc) =
      {R_flow_id, R_tenant, R_no_tasks, R_risk_level, R_cycle}
      \<union> (\<Union>i<length ?ts. set (task_rules i))
      \<union> (\<Union>j<length (doc_edges doc). set (edge_rules j))"
    by (auto simp: rule_order_def earlier_rules_def)
  from pass have "\<not> violates lib doc R_flow_id" "\<not> violates lib doc R_tenant"
    "\<not> violates lib doc R_no_tasks" "\<not> violates lib doc R_risk_level"
    "\<not> violates lib doc R_cycle"
    unfolding order by blast+
  then have top: "strip (doc_id doc) \<noteq> []" "strip (doc_tenant doc) \<noteq> []" "?ts \<noteq> []"
    "p_risk_level (doc_policy doc) \<in> VALID_RISK_LEVELS" "acyclic (doc_edge_rel doc)"
    by simp_all
  have trule: "\<And>i r. i < length ?ts \<Longrightarrow> r \<in> set (task_rules i) \<Longrightarrow> \<not> violates lib doc r"
    using pass unfolding order by blast
  have "\<And>r. r \<in> set (concat (map edge_rules [0..<length (doc_edges doc)])) \<Longrightarrow>
          \<not> violates lib doc r"
    using pass unfolding order by auto
  then have erule: "find (violates lib doc) (concat (map edge_rules [0..<length (doc_edges doc)])) = None"
    by (simp only: find_None_iff) blast
  have task: "name (ir_task_of lib t) = t_name t \<and> strip (name (ir_task_of lib t)) \<noteq> [] \<and>
       strip (agent (ir_task_of lib t)) \<noteq> [] \<and> 0 < timeout_ms (ir_task_of lib t)"
    if t: "t \<in> set ?ts" for t
  proof -
    from t obtain i where i: "i < length ?ts" "?ts ! i = t" by (auto simp: in_set_conv_nth)
    have "\<not> violates lib doc (R_task_name i)" "\<not> violates lib doc (R_agent i)"
      "\<not> violates lib doc (R_timeout_int i)" "\<not> violates lib doc (R_timeout_positive i)"
      by (rule trule [OF i(1)], simp add: task_rules_def)+
    with i(2) have a: "strip (t_name t) \<noteq> []" "strip (t_agent t) \<noteq> []"
      and b: "\<not> coercion_fails lib (timeout_value t)"
      and c: "\<not> (case py_int lib (timeout_value t) of Inl _ \<Rightarrow> False | Inr n \<Rightarrow> n \<le> 0)"
      by simp_all
    from nov t have "py_int lib (timeout_value t) \<noteq> Inl OverflowError"
      by (simp add: no_overflow_def)
    with b py_int_results [of lib "timeout_value t"]
    obtain n where n: "py_int lib (timeout_value t) = Inr n" by blast
    with c have "0 < n" by simp
    with a n show ?thesis by (simp add: ir_task_of_def)
  qed
  have names: "map fst (tasks (ir_flow_of lib doc)) = map t_name ?ts"
    by (simp add: ir_flow_of_def comp_def)
  have "distinct (map t_name ?ts)"
  proof (rule distinct_if_no_earlier)
    fix i assume i: "i < length (map t_name ?ts)"
    then have "\<not> violates lib doc (R_duplicate_name i)"
      using trule [of i "R_duplicate_name i"] by (simp add: task_rules_def)
    with i show "map t_name ?ts ! i \<notin> set (take i (map t_name ?ts))"
      by (simp add: take_map)
  qed
  moreover have "\<forall>e\<in>set (edges (ir_flow_of lib doc)).
      source e \<in> fst ` set (tasks (ir_flow_of lib doc)) \<and>
      target e \<in> fst ` set (tasks (ir_flow_of lib doc))"
  proof
    fix e assume "e \<in> set (edges (ir_flow_of lib doc))"
    then obtain x where x: "x \<in> set (doc_edges doc)" "e = ir_edge_of x"
      by (auto simp: ir_flow_of_def)
    from edge_rules_pass [OF erule x(1)] x(2)
    show "source e \<in> fst ` set (tasks (ir_flow_of lib doc)) \<and>
          target e \<in> fst ` set (tasks (ir_flow_of lib doc))"
      by (simp add: ir_edge_of_def ir_flow_of_def image_image)
  qed
  moreover have "edge_rel (ir_flow_of lib doc) = doc_edge_rel doc"
    by (force simp: edge_rel_def doc_edge_rel_def ir_flow_of_def ir_edge_of_def)
  ultimately have g: "graph_ok (ir_flow_of lib doc)"
    using top(5) names by (simp add: graph_ok_def)
  have "\<forall>p\<in>set (tasks (ir_flow_of lib doc)).
      name (snd p) = fst p \<and> strip (name (snd p)) \<noteq> [] \<and> strip (agent (snd p)) \<noteq> [] \<and>
      0 < timeout_ms (snd p)"
  proof
    fix p assume "p \<in> set (tasks (ir_flow_of lib doc))"
    then obtain t where t: "t \<in> set ?ts" "p = (t_name t, ir_task_of lib t)"
      by (auto simp: ir_flow_of_def)
    from task [OF t(1)] t(2)
    show "name (snd p) = fst p \<and> strip (name (snd p)) \<noteq> [] \<and> strip (agent (snd p)) \<noteq> [] \<and>
      0 < timeout_ms (snd p)" by auto
  qed
  moreover have "flow_id (ir_flow_of lib doc) = doc_id doc"
    "tenant (ir_flow_of lib doc) = doc_tenant doc"
    "risk_level (policy (ir_flow_of lib doc)) = p_risk_level (doc_policy doc)"
    "tasks (ir_flow_of lib doc) \<noteq> []"
    using top(3) by (simp_all add: ir_flow_of_def)
  ultimately show ?thesis
    unfolding valid_IRFlow_def using top g by (intro conjI) (assumption | simp)+
qed

text \<open>
  Every flow the validator returns satisfies the invariants of the specification,
  whatever the number of frames.
\<close>

lemma validate_sound:
  assumes ok: "set_order_ok lib" and v: "validate_and_normalize lib doc = Inr flow"
  shows "valid_IRFlow flow"
proof -
  let ?P = "violates lib doc"
  let ?irT = "map (\<lambda>t. (t_name t, ir_task_of lib t)) (doc_tasks doc)"
  let ?irE = "map ir_edge_of (doc_edges doc)"
  note nov = validate_Inr_no_overflow [OF v]
  note pre = validate_earlier [OF nov]
  from pre v have none: "find ?P (earlier_rules doc) = None"
    by (cases "find ?P (earlier_rules doc)") auto
  with pre have ends: "\<forall>e\<in>set ?irE. source e \<in> fst ` set ?irT \<and> target e \<in> fst ` set ?irT"
    and r: "validate_and_normalize lib doc =
             (case assert_dag lib ?irT ?irE of Inl e \<Rightarrow> Inl e | Inr u \<Rightarrow> Inr (ir_flow_of lib doc))"
    by simp_all
  from r v obtain u where u: "assert_dag lib ?irT ?irE = Inr u" and f: "flow = ir_flow_of lib doc"
    by (cases "assert_dag lib ?irT ?irE") auto
  from assert_dag_sound [OF ok ends u] have "acyclic (doc_edge_rel doc)"
    by (simp only: ir_edge_rel_doc)
  then have "find ?P (rule_order doc) = None"
    by (simp only: rule_order_def find_append none option.case) simp
  then have "\<forall>r\<in>set (rule_order doc). \<not> violates lib doc r"
    by (simp only: find_None_iff) blast
  from rules_pass_valid [OF this nov] f show ?thesis by simp
qed

lemma is_path_trancl:
  "is_path E xs \<Longrightarrow> 2 \<le> length xs \<Longrightarrow> (hd xs, last xs) \<in> E\<^sup>+"
proof (induction E xs rule: is_path.induct)
  case (3 E x y zs)
  show ?case
  proof (cases zs)
    case Nil
    with 3 show ?thesis by auto
  next
    case (Cons z zs')
    with 3 have "(y, last (y # zs)) \<in> E\<^sup>+" by simp
    moreover from 3 have "(x, y) \<in> E" by simp
    ultimately show ?thesis by (simp add: trancl_into_trancl2)
  qed
qed simp_all

lemma is_cycle_not_acyclic: "is_cycle E c \<Longrightarrow> \<not> acyclic E"
proof -
  assume c: "is_cycle E c"
  then have "is_path E (c @ [hd c])" "2 \<le> length (c @ [hd c])"
    by (auto simp: is_cycle_def Suc_le_eq)
  from is_path_trancl [OF this] c have "(hd c, hd c) \<in> E\<^sup>+"
    by (auto simp: is_cycle_def)
  then show ?thesis by (auto simp: acyclic_def)
qed

lemma cycle_reported:
  assumes ok: "set_order_ok lib" and pass: "passes_earlier_rules lib doc"
    and room: "length (doc_tasks doc) < max_depth lib"
    and cyc: "\<not> acyclic (doc_edge_rel doc)"
  shows "\<exists>n. validate_and_normalize lib doc = Inl (ValidationError (CycleDetected n))
           \<and> (n, n) \<in> (doc_edge_rel doc)\<^sup>+"
proof -
  from pass have nov: "no_overflow lib doc"
    and e: "find (violates lib doc) (earlier_rules doc) = None"
    by (auto simp: passes_earlier_rules_def find_None_iff)
  have "find (violates lib doc) (rule_order doc) = Some R_cycle"
    using cyc by (simp add: rule_order_def find_append e)
  with validate_spec [OF ok nov room] obtain err where
    "validate_and_normalize lib doc = Inl (ValidationError err)" "reports doc R_cycle err"
    by auto
  then show ?thesis by (cases err) auto
qed

lemma example_lib_ok: "set_order_ok example_lib"
  by (simp add: set_order_ok_def example_lib_def)


lemma ring_name_eq [simp]: "ring_name i = ring_name j \<longleftrightarrow> i = j"
proof
  assume "ring_name i = ring_name j"
  then have "length (ring_name i) = length (ring_name j)" by simp
  then show "i = j" by (simp add: ring_name_def)
qed simp

lemma strip_ring_name: "strip (ring_name i) \<noteq> []"
  by (simp add: strip_def ring_name_def is_space_def)

lemma ring_doc_passes:
  assumes n: "0 < n"
  shows "passes_earlier_rules lib (ring_doc n)"
proof -
  let ?doc = "ring_doc n"
  have ts: "doc_tasks ?doc = map (\<lambda>i. mk_task (ring_name i) ''a'' []) [0..<n]"
    and es: "doc_edges ?doc = map (\<lambda>i. mk_edge (ring_name i) (ring_name (Suc i mod n))) [0..<n]"
    by (simp_all add: ring_doc_def mk_doc_def)
  have names: "set (map t_name (doc_tasks ?doc)) = ring_name ` {..<n}"
    by (auto simp: ts mk_task_def)
  have order: "set (earlier_rules ?doc) =
      {R_flow_id, R_tenant, R_no_tasks, R_risk_level}
      \<union> (\<Union>i<n. set (task_rules i)) \<union> (\<Union>j<n. set (edge_rules j))"
    by (auto simp: earlier_rules_def ts es)
  have top: "\<not> violates lib ?doc R_flow_id" "\<not> violates lib ?doc R_tenant"
    "\<not> violates lib ?doc R_no_tasks" "\<not> violates lib ?doc R_risk_level"
    using n by (simp_all add: ring_doc_def mk_doc_def strip_def is_space_def VALID_RISK_LEVELS_def)
  have task: "\<not> violates lib ?doc r" if "i < n" "r \<in> set (task_rules i)" for i r
  proof -
    have t: "doc_tasks ?doc ! i = mk_task (ring_name i) ''a'' []"
      using that(1) by (simp add: ts)
    have tk: "take i (doc_tasks ?doc) = map (\<lambda>i. mk_task (ring_name i) ''a'' []) [0..<i]"
      using that(1) by (simp add: ts take_map)
    have v: "priority_value (mk_task (ring_name i) ''a'' []) = PInt DEFAULT_PRIORITY"
      "timeout_value (mk_task (ring_name i) ''a'' []) = PInt DEFAULT_TIMEOUT_MS"
      by (simp_all add: priority_value_def timeout_value_def resource_value_def mk_task_def)
    have a: "strip ''a'' \<noteq> []" by (simp add: strip_def is_space_def)
    have d: "ring_name i \<notin> set (map t_name (take i (doc_tasks ?doc)))"
      by (auto simp: tk mk_task_def)
    from that(2) consider "r = R_task_name i" | "r = R_duplicate_name i" | "r = R_agent i"
      | "r = R_priority_int i" | "r = R_timeout_int i" | "r = R_timeout_positive i"
      by (auto simp: task_rules_def)
    then show ?thesis
    proof cases
      case 1
      then show ?thesis using strip_ring_name by (simp add: t mk_task_def)
    next
      case 2
      then show ?thesis using d by (simp add: t mk_task_def)
    next
      case 3
      then show ?thesis using a by (simp add: t mk_task_def)
    next
      case 4
      then show ?thesis by (simp add: t v coercion_fails_def)
    next
      case 5
      then show ?thesis by (simp add: t v coercion_fails_def)
    next
      case 6
      then show ?thesis by (simp add: t v DEFAULT_TIMEOUT_MS_def)
    qed
  qed
  have edge: "\<not> violates lib ?doc r" if "j < n" "r \<in> set (edge_rules j)" for j r
  proof -
    have e: "doc_edges ?doc ! j = mk_edge (ring_name j) (ring_name (Suc j mod n))"
      using that(1) by (simp add: es)
    have "Suc j mod n < n" using n by simp
    with that(1) have "ring_name j \<in> set (map t_name (doc_tasks ?doc))"
      "ring_name (Suc j mod n) \<in> set (map t_name (doc_tasks ?doc))"
      unfolding names by simp_all
    with that(2) show ?thesis
      by (auto simp: edge_rules_def e mk_edge_def simp del: set_map)
  qed
  have nov: "no_overflow lib ?doc"
    by (auto simp: no_overflow_def ts priority_value_def timeout_value_def resource_value_def
        mk_task_def)
  have "\<forall>r\<in>set (earlier_rules ?doc). \<not> violates lib ?doc r"
    unfolding order using top task edge by blast
  with nov show ?thesis by (simp add: passes_earlier_rules_def)
qed

text \<open>
  Along the ring every call of \<^verbatim>\<open>dfs\<close> descends into the next task; with no more frames
  than tasks are left, the frames run out before the traversal comes back to a task on
  the path.
\<close>

lemma ring_dfs:
  assumes ok: "set_order_ok lib"
    and g: "\<And>k. k < n \<Longrightarrow> \<exists>ts. map_of g (ring_name k) = Some ts
                \<and> set ts = {ring_name (Suc k mod n)}"
  shows "k < n \<Longrightarrow> d \<le> n - k \<Longrightarrow> visiting \<subseteq> ring_name ` {..<k} \<Longrightarrow>
         dfs lib g visiting {} d (ring_name k) = Inl RecursionError"
proof (induction d arbitrary: k visiting)
  case 0
  then show ?case by simp
next
  case (Suc d)
  from g [OF Suc.prems(1)] obtain ts where ts: "map_of g (ring_name k) = Some ts"
    "set ts = {ring_name (Suc k mod n)}" by blast
  from ts(2) ok have "set (set_order lib ts) = {ring_name (Suc k mod n)}"
    by (simp add: set_order_ok_def)
  then obtain rest where so: "set_order lib ts = ring_name (Suc k mod n) # rest"
    by (cases "set_order lib ts") auto
  from Suc.prems(3) have nv: "ring_name k \<notin> visiting" by auto
  have nxt: "dfs lib g (insert (ring_name k) visiting) {} d (ring_name (Suc k mod n))
      = Inl RecursionError"
  proof (cases "Suc k < n")
    case True
    then have m: "Suc k mod n = Suc k" by simp
    from Suc.prems(2) have "d \<le> n - Suc k" by simp
    moreover from Suc.prems(3) have "insert (ring_name k) visiting \<subseteq> ring_name ` {..<Suc k}"
      by auto
    ultimately show ?thesis unfolding m using Suc.IH [OF True] by blast
  next
    case False
    with Suc.prems(1,2) have "d = 0" by simp
    then show ?thesis by simp
  qed
  have "dfs_all lib g (insert (ring_name k) visiting) {} d (set_order lib ts)
      = Inl RecursionError"
    unfolding so by (simp only: dfs_all.simps nxt sum.case)
  then show ?case
    by (subst dfs.simps) (simp add: nv ts(1))
qed

lemma ring_assert_dag:
  assumes ok: "set_order_ok lib" and n: "0 < n" and d: "max_depth lib \<le> n"
  shows "assert_dag lib (map (\<lambda>t. (t_name t, ir_task_of lib t)) (doc_tasks (ring_doc n)))
           (map ir_edge_of (doc_edges (ring_doc n))) = Inl RecursionError"
proof -
  let ?doc = "ring_doc n"
  let ?irT = "map (\<lambda>t. (t_name t, ir_task_of lib t)) (doc_tasks ?doc)"
  let ?irE = "map ir_edge_of (doc_edges ?doc)"
  have names: "map fst ?irT = map ring_name [0..<n]"
    by (simp add: ring_doc_def mk_doc_def mk_task_def comp_def)
  have rel: "ir_edge_rel ?irE = (\<lambda>i. (ring_name i, ring_name (Suc i mod n))) ` {..<n}"
    by (auto simp: ir_edge_rel_def ring_doc_def mk_doc_def mk_edge_def ir_edge_of_def
        image_image intro!: image_eqI)
  have ends: "\<forall>e\<in>set ?irE. source e \<in> fst ` set ?irT \<and> target e \<in> fst ` set ?irT"
  proof
    fix e assume "e \<in> set ?irE"
    then obtain i where i: "i < n" "source e = ring_name i" "target e = ring_name (Suc i mod n)"
      by (auto simp: ring_doc_def mk_doc_def mk_edge_def ir_edge_of_def)
    have f: "fst ` set ?irT = ring_name ` {..<n}"
      using names by (metis list.set_map set_upt atLeast_upt)
    have "Suc i mod n < n" using n by simp
    with i f show "source e \<in> fst ` set ?irT \<and> target e \<in> fst ` set ?irT" by auto
  qed
  from assert_dag_graph [OF ends] obtain g where
    g: "dag_graph ?irE (map (\<lambda>n. (n, [])) (map fst ?irT)) = Inr g"
    and gr: "graph_rel g = ir_edge_rel ?irE" and dom: "dom (map_of g) = fst ` set ?irT"
    by blast
  have succ: "\<exists>ts. map_of g (ring_name k) = Some ts \<and> set ts = {ring_name (Suc k mod n)}"
    if k: "k < n" for k
  proof -
    have "ring_name k \<in> fst ` set ?irT"
      using names k by (metis (no_types, lifting) list.set_map set_upt atLeastLessThan_iff
          image_eqI le0)
    with dom have "ring_name k \<in> dom (map_of g)" by simp
    then obtain ts where ts: "map_of g (ring_name k) = Some ts" by blast
    have "set ts = {v. (ring_name k, v) \<in> graph_rel g}"
      using ts by (auto simp: graph_rel_def)
    also have "\<dots> = {ring_name (Suc k mod n)}"
      unfolding gr rel using k by auto
    finally show ?thesis using ts by blast
  qed
  have "dfs lib g {} {} (max_depth lib) (ring_name 0) = Inl RecursionError"
    using ring_dfs [OF ok succ, of 0 "max_depth lib" "{}"] n d by simp
  moreover have "map fst ?irT = ring_name 0 # map ring_name [1..<n]"
    unfolding names using n by (simp add: upt_conv_Cons)
  ultimately have "dfs_all lib g {} {} (max_depth lib) (map fst ?irT) = Inl RecursionError"
    by (simp only: dfs_all.simps sum.case)
  with g show ?thesis by (simp only: assert_dag_def sum.case)
qed

lemma ring_doc_raises:
  assumes ok: "set_order_ok lib" and n: "0 < n" and d: "max_depth lib \<le> n"
  shows "validate_and_normalize lib (ring_doc n) = Inl RecursionError"
proof -
  from ring_doc_passes [OF n, of lib] have nov: "no_overflow lib (ring_doc n)"
    and e: "find (violates lib (ring_doc n)) (earlier_rules (ring_doc n)) = None"
    by (auto simp: passes_earlier_rules_def find_None_iff)
  from validate_earlier [OF nov] e ring_assert_dag [OF ok n d] show ?thesis by simp
qed

lemma is_path_if_steps:
  "\<forall>i. Suc i < length xs \<longrightarrow> (xs ! i, xs ! Suc i) \<in> E \<Longrightarrow> is_path E xs"
proof (induction E xs rule: is_path.induct)
  case (3 E x y zs)
  from "3.prems" [rule_format, of 0] have "(x, y) \<in> E" by simp
  moreover have "is_path E (y # zs)"
  proof (rule "3.IH", intro allI impI)
    fix i assume "Suc i < length (y # zs)"
    with "3.prems" [rule_format, of "Suc i"]
    show "((y # zs) ! i, (y # zs) ! Suc i) \<in> E" by simp
  qed
  ultimately show ?case by simp
qed simp_all

lemma ring_doc_cycle:
  assumes n: "0 < n"
  shows "is_cycle (doc_edge_rel (ring_doc n)) (map ring_name [0..<n])"
proof -
  let ?c = "map ring_name [0..<n]"
  have rel: "doc_edge_rel (ring_doc n) = (\<lambda>i. (ring_name i, ring_name (Suc i mod n))) ` {..<n}"
    by (auto simp: doc_edge_rel_def ring_doc_def mk_doc_def mk_edge_def image_image
        intro!: image_eqI)
  have hd: "hd ?c = ring_name 0" using n by (simp add: hd_map upt_conv_Cons)
  have "is_path (doc_edge_rel (ring_doc n)) (?c @ [ring_name 0])"
  proof (rule is_path_if_steps, intro allI impI)
    fix i assume "Suc i < length (?c @ [ring_name 0])"
    then have i: "i < n" by simp
    have a: "(?c @ [ring_name 0]) ! i = ring_name i" using i by (simp add: nth_append)
    have b: "(?c @ [ring_name 0]) ! Suc i = ring_name (Suc i mod n)"
    proof (cases "Suc i < n")
      case True
      then show ?thesis by (simp add: nth_append)
    next
      case False
      with i have "Suc i = n" by simp
      then show ?thesis by (auto simp: nth_append)
    qed
    show "((?c @ [ring_name 0]) ! i, (?c @ [ring_name 0]) ! Suc i) \<in> doc_edge_rel (ring_doc n)"
      unfolding a b rel using i by blast
  qed
  with n show ?thesis by (simp add: is_cycle_def hd)
qed

lemma ring_names_distinct: "distinct (map ring_name [0..<n])"
  by (simp add: distinct_map inj_on_def)

text \<open>
  Claim C3. A flow the validator returns satisfies every invariant (\<open>validate_sound\<close>
  above). The second half of the claim fails: a task whose \<^verbatim>\<open>timeout_ms\<close> is an infinite
  float cannot be given a positive integer timeout, and validation ends with
  \<^verbatim>\<open>OverflowError\<close>, which \<^verbatim>\<open>_int_field\<close> does not catch, not with
  \<^verbatim>\<open>ValidationError\<close>.
\<close>

theorem infinite_timeout_escapes:
  "validate_and_normalize lib infinite_timeout_doc = Inl OverflowError"
  by (simp add: validate_and_normalize_def infinite_timeout_doc_def mk_doc_def mk_task_def
      strip_def is_space_def int_field_def resource_value_def DEFAULT_PRIORITY_def)

text \<open>
  Claim C4. The docstring of \<^verbatim>\<open>_assert_dag\<close> says that a cycle raises
  \<^verbatim>\<open>ValidationError\<close>, and with more frames than tasks the validator does so, naming a
  task on a cycle (\<open>cycle_reported\<close> above). But \<^verbatim>\<open>dfs\<close> calls itself once for every task
  of a path, so a long cycle uses up the frames first. For the ring of \<open>n \<ge> 2\<close> tasks and
  a runtime with no more than \<open>n\<close> frames, for every order in which the successor sets
  are iterated: the document passes all earlier checks, its edges form a cycle through
  \<open>n\<close> distinct tasks, and validation ends with \<^verbatim>\<open>RecursionError\<close>, not with
  \<^verbatim>\<open>ValidationError\<close>.
\<close>

theorem long_cycle_raises_recursion_error:
  assumes "set_order_ok lib" and "2 \<le> n" and "max_depth lib \<le> n"
  shows "passes_earlier_rules lib (ring_doc n) \<and>
         is_cycle (doc_edge_rel (ring_doc n)) (map ring_name [0..<n]) \<and>
         distinct (map ring_name [0..<n]) \<and> length (map ring_name [0..<n]) = n \<and>
         validate_and_normalize lib (ring_doc n) = Inl RecursionError"
proof -
  from assms(2) have n: "0 < n" by simp
  from ring_doc_passes [OF n] ring_doc_cycle [OF n] ring_names_distinct
    ring_doc_raises [OF assms(1) n assms(3)]
  show ?thesis by simp
qed

theorem long_cycle_raises_recursion_error_witness:
  "set_order_ok example_lib \<and> (2::nat) \<le> 1000 \<and> max_depth example_lib \<le> 1000 \<and>
   passes_earlier_rules example_lib (ring_doc 1000) \<and>
   is_cycle (doc_edge_rel (ring_doc 1000)) (map ring_name [0..<1000]) \<and>
   distinct (map ring_name [0..<1000]) \<and> length (map ring_name [0..<1000]) = 1000 \<and>
   validate_and_normalize example_lib (ring_doc 1000) = Inl RecursionError"
proof -
  have h2: "(2::nat) \<le> 1000" by simp
  have h3: "max_depth example_lib \<le> 1000" by (simp add: example_lib_def)
  from long_cycle_raises_recursion_error [OF example_lib_ok h2 h3] example_lib_ok h2 h3
  show ?thesis by (intro conjI) (assumption | elim conjE)+
qed




text \<open>
  Claim C10 as stated fails. With two self-loops the traversal stops at the first one:
  the document \<open>two_self_loops_doc\<close> has the self-loop edge of \<^verbatim>\<open>b\<close>, and the error names
  \<^verbatim>\<open>a\<close>.
\<close>

theorem self_loop_counterexample:
  "passes_earlier_rules example_lib two_self_loops_doc \<and>
   mk_edge ''b'' ''b'' \<in> set (doc_edges two_self_loops_doc) \<and>
   e_source (mk_edge ''b'' ''b'') = e_target (mk_edge ''b'' ''b'') \<and>
   validate_and_normalize example_lib two_self_loops_doc
     = Inl (ValidationError (CycleDetected ''a'')) \<and>
   ''a'' \<noteq> e_source (mk_edge ''b'' ''b'')"
proof -
  have a: "passes_earlier_rules example_lib two_self_loops_doc" by code_simp
  have b: "validate_and_normalize example_lib two_self_loops_doc
     = Inl (ValidationError (CycleDetected ''a''))" by code_simp
  from a b show ?thesis by (simp add: two_self_loops_doc_def mk_doc_def mk_edge_def)
qed

text \<open>
  Claim C10, amended. For every document that passes all earlier checks, has fewer tasks
  than the runtime has frames for \<^verbatim>\<open>dfs\<close>, and has an edge from a task to itself,
  validation fails with the cycle error naming a task that lies on a cycle; it names the
  task of the self-loop whenever no other task lies on a cycle.
\<close>

theorem self_loop_is_reported:
  assumes "set_order_ok lib" and "passes_earlier_rules lib doc"
    and "length (doc_tasks doc) < max_depth lib"
    and "x \<in> set (doc_edges doc)" and "e_source x = e_target x"
  shows "\<exists>n. validate_and_normalize lib doc = Inl (ValidationError (CycleDetected n))
           \<and> (n, n) \<in> (doc_edge_rel doc)\<^sup>+
           \<and> ((\<forall>m. (m, m) \<in> (doc_edge_rel doc)\<^sup>+ \<longrightarrow> m = e_source x) \<longrightarrow> n = e_source x)"
proof -
  from assms(4,5) have "(e_source x, e_source x) \<in> doc_edge_rel doc"
    by (force simp: doc_edge_rel_def)
  then have "(e_source x, e_source x) \<in> (doc_edge_rel doc)\<^sup>+" by (rule r_into_trancl)
  then have "\<not> acyclic (doc_edge_rel doc)" by (auto simp: acyclic_def)
  from cycle_reported [OF assms(1,2,3) this] show ?thesis by blast
qed

theorem self_loop_is_reported_witness:
  "set_order_ok example_lib \<and> passes_earlier_rules example_lib self_loop_doc \<and>
   length (doc_tasks self_loop_doc) < max_depth example_lib \<and>
   mk_edge ''b'' ''b'' \<in> set (doc_edges self_loop_doc) \<and>
   e_source (mk_edge ''b'' ''b'') = e_target (mk_edge ''b'' ''b'') \<and>
   (\<exists>n. validate_and_normalize example_lib self_loop_doc = Inl (ValidationError (CycleDetected n))
      \<and> (n, n) \<in> (doc_edge_rel self_loop_doc)\<^sup>+
      \<and> ((\<forall>m. (m, m) \<in> (doc_edge_rel self_loop_doc)\<^sup>+ \<longrightarrow> m = e_source (mk_edge ''b'' ''b''))
           \<longrightarrow> n = e_source (mk_edge ''b'' ''b'')))"
proof -
  have h2: "passes_earlier_rules example_lib self_loop_doc" by code_simp
  have h3: "length (doc_tasks self_loop_doc) < max_depth example_lib"
    by (simp add: self_loop_doc_def mk_doc_def example_lib_def)
  have h4: "mk_edge ''b'' ''b'' \<in> set (doc_edges self_loop_doc)"
    by (simp add: self_loop_doc_def mk_doc_def)
  have h5: "e_source (mk_edge ''b'' ''b'') = e_target (mk_edge ''b'' ''b'')"
    by (simp add: mk_edge_def)
  from self_loop_is_reported [OF example_lib_ok h2 h3 h4 h5] example_lib_ok h2 h3 h4 h5
  show ?thesis by blast
qed

section \<open>Correctness of the parser\<close>

lemma py_dict_errors: "py_dict lib v = Inl e \<Longrightarrow> e = TypeError \<or> e = ValueError"
  by (cases v) (auto split: if_splits sum.splits dict_failure.splits)

lemma task_node_errors: "task_node lib d = Inl e \<Longrightarrow> e = TypeError \<or> e = ValueError"
  unfolding task_node_def by (auto split: sum.splits dest: py_dict_errors)

lemma parse_tasks_ParseError:
  "parse_tasks lib ts acc = Inl (ParseError pe) \<Longrightarrow> \<exists>t\<in>set ts. \<not> is_dict t"
proof (induction ts arbitrary: acc)
  case Nil
  then show ?case by simp
next
  case (Cons t rest)
  show ?case
  proof (cases "is_dict t")
    case False
    then show ?thesis by simp
  next
    case True
    then obtain d where d: "t = PDict d" by (cases t) simp_all
    show ?thesis
    proof (cases "task_node lib d")
      case (Inl e)
      with Cons.prems d task_node_errors [OF Inl] show ?thesis by auto
    next
      case (Inr node)
      with Cons.prems d have "parse_tasks lib rest (acc @ [node]) = Inl (ParseError pe)" by simp
      from Cons.IH [OF this] show ?thesis by simp
    qed
  qed
qed


lemma parse_edges_result:
  "parse_edges lib es acc = Inl e \<Longrightarrow> e = ParseError EdgeNotMapping \<and> (\<exists>x\<in>set es. \<not> is_dict x)"
  "parse_edges lib es acc = Inr r \<Longrightarrow> \<forall>x\<in>set es. is_dict x"
proof (induction es arbitrary: acc)
  case Nil
  { case 1 then show ?case by simp }
  { case 2 then show ?case by simp }
next
  case (Cons x rest)
  { case 1
    show ?case
    proof (cases x)
      case (PDict d)
      with 1 have "parse_edges lib rest
        (acc @ [\<lparr>e_source = py_str lib (dict_get d ''from'' (PStr [])),
                 e_target = py_str lib (dict_get d ''to'' (PStr [])),
                 e_condition = dict_get d ''condition'' PNone\<rparr>]) = Inl e" by simp
      from Cons.IH(1) [OF this] show ?thesis by simp
    qed (use 1 in auto) }
  { case 2
    show ?case
    proof (cases x)
      case (PDict d)
      with 2 have "parse_edges lib rest
        (acc @ [\<lparr>e_source = py_str lib (dict_get d ''from'' (PStr [])),
                 e_target = py_str lib (dict_get d ''to'' (PStr [])),
                 e_condition = dict_get d ''condition'' PNone\<rparr>]) = Inr r" by simp
      from Cons.IH(2) [OF this] PDict show ?thesis by simp
    qed (use 2 in auto) }
qed

lemma py_int_not_ParseError: "py_int lib v \<noteq> Inl (ParseError pe)"
proof (cases v)
  case (PFloat f)
  then show ?thesis by (cases f) simp_all
qed (simp_all split: option.splits)


lemma require_list_Inr:
  "require_list raw key = Inr xs \<longleftrightarrow> map_of raw (PStr key) = Some (PList xs)"
  by (auto simp: require_list_def dict_get_def split: option.splits pyval.splits)


lemma edges_value_cases:
  "py_or (dict_get raw ''edges'' PNone) (PList []) = PList es \<Longrightarrow>
     edges_malformed raw \<longleftrightarrow> (\<exists>e\<in>set es. \<not> is_dict e)"
  "\<not> is_list (py_or (dict_get raw ''edges'' PNone) (PList [])) \<Longrightarrow> edges_malformed raw"
  by (auto simp: py_or_def dict_get_def edges_malformed_def
      split: option.splits pyval.splits if_splits pyfloat.splits)







text \<open>
  The condition is exact: on every other input an exception that is no \<^verbatim>\<open>ParseError\<close>
  leaves the parser. (The loader raises exceptions of PyYAML and of Python, never the
  \<^verbatim>\<open>ParseError\<close> of this package.)
\<close>

lemma parse_tasks_other:
  "\<not> list_all (task_fields_coercible lib) (takeWhile is_dict ts) \<Longrightarrow>
     other_exception (parse_tasks lib ts acc)"
proof (induction ts arbitrary: acc)
  case Nil
  then show ?case by simp
next
  case (Cons t rest)
  show ?case
  proof (cases "is_dict t")
    case False
    with Cons.prems show ?thesis by simp
  next
    case True
    then obtain d where d: "t = PDict d" by (cases t) simp_all
    show ?thesis
    proof (cases "task_node lib d")
      case (Inl e)
      from task_node_errors [OF Inl] Inl d show ?thesis
        by (auto simp: other_exception_def)
    next
      case (Inr node)
      then have "task_fields_coercible lib (PDict d)"
        by (auto simp: task_node_def dict_coercible_def split: sum.splits)
      with Cons.prems d have "\<not> list_all (task_fields_coercible lib) (takeWhile is_dict rest)"
        by simp
      from Cons.IH [OF this] Inr d show ?thesis by simp
    qed
  qed
qed

lemma other_exception_Inl: "other_exception (Inl e) \<longleftrightarrow> (\<forall>pe. e \<noteq> ParseError pe)"
  by (cases e) (simp_all add: other_exception_def)

lemma parse_yaml_other:
  assumes nc: "\<not> coercions_succeed lib src"
    and load: "\<And>pe. safe_load lib src \<noteq> Inl (ParseError pe)"
  shows "other_exception (parse_yaml lib src)"
proof (cases "safe_load lib src")
  case (Inl e)
  with nc have "e \<noteq> YAMLError" by (simp add: coercions_succeed_def)
  with Inl load show ?thesis by (cases e) (simp_all add: parse_yaml_def other_exception_def)
next
  case (Inr v)
  let ?r = "parse_yaml lib src"
  show ?thesis
  proof (cases "is_dict v")
    case False
    with Inr nc show ?thesis by (cases v) (simp_all add: coercions_succeed_def)
  next
    case True
    then obtain raw where v: "v = PDict raw" by (cases v) simp_all
    note ld = Inr [unfolded v]
    show ?thesis
    proof (cases "py_int lib (dict_get raw ''version'' (PInt 1))")
      case (Inl e)
      then have "?r = Inl e" using ld by (simp add: parse_yaml_def)
      moreover have "\<And>pe. e \<noteq> ParseError pe"
        using py_int_not_ParseError [of lib] Inl by metis
      ultimately show ?thesis by (simp add: other_exception_Inl)
    next
      case ver: (Inr ver)
      with nc ld consider
        (tasks) ts where "dict_get raw ''tasks'' PNone = PList ts"
            "\<not> list_all (task_fields_coercible lib) (takeWhile is_dict ts)"
        | (policy) "\<not> tasks_malformed raw" "\<not> edges_malformed raw" "\<not> policy_readable raw"
        by (auto simp: coercions_succeed_def split: pyval.splits)
      then show ?thesis
      proof cases
        case tasks
        from tasks(1) have rl: "require_list raw ''tasks'' = Inr ts"
          by (simp add: require_list_def)
        from parse_tasks_other [OF tasks(2), of "[]"] obtain e where
          e: "parse_tasks lib ts [] = Inl e" "\<And>pe. e \<noteq> ParseError pe"
          by (cases "parse_tasks lib ts []") (auto simp: other_exception_def split: exc.splits)
        then have "?r = Inl e" using ld ver rl by (simp add: parse_yaml_def)
        with e(2) show ?thesis by (simp add: other_exception_Inl)
      next
        case policy
        from policy(1) obtain ts where tv: "map_of raw (PStr ''tasks'') = Some (PList ts)"
          and td: "\<forall>t\<in>set ts. is_dict t"
          by (auto simp: tasks_malformed_def split: option.splits pyval.splits)
        then have rl: "require_list raw ''tasks'' = Inr ts" by (simp add: require_list_Inr)
        show ?thesis
        proof (cases "parse_tasks lib ts []")
          case (Inl e)
          then have r: "?r = Inl e" using ld ver rl by (simp add: parse_yaml_def)
          have "\<And>pe. e \<noteq> ParseError pe"
            using parse_tasks_ParseError [of lib ts "[]"] Inl td by blast
          with r show ?thesis by (simp add: other_exception_Inl)
        next
          case pts: (Inr nodes)
          let ?ev = "py_or (dict_get raw ''edges'' PNone) (PList [])"
          from policy(2) edges_value_cases(2) [of raw] have "is_list ?ev" by blast
          then obtain es where es: "?ev = PList es" by (cases ?ev) simp_all
          from edges_value_cases(1) [OF es] policy(2) have ed: "\<forall>e\<in>set es. is_dict e" by simp
          obtain edges where pe: "parse_edges lib es [] = Inr edges"
            using parse_edges_result(1) [of lib es "[]"] ed
            by (cases "parse_edges lib es []") auto
          from policy(3) have "parse_policy lib raw = Inl AttributeError"
            by (cases "py_or (dict_get raw ''policy'' PNone) (PDict [])")
              (simp_all add: policy_readable_def parse_policy_def)
          then have "?r = Inl AttributeError"
            using ld ver rl pts es pe by (simp add: parse_yaml_def)
          then show ?thesis by (simp add: other_exception_def)
        qed
      qed
    qed
  qed
qed




end
